theory Spec2Isabelle
  imports Complex_Main "HOL-Library.Multiset"
begin

section \<open>Cell states, grids and errors\<close>

text \<open>
  The generators of \<^verbatim>\<open>array_pilot.py\<close> return a two-dimensional numpy array of floats
  holding one of three values: \<^verbatim>\<open>1\<close> (an active cell), \<^verbatim>\<open>0\<close> (a passive cell) and
  \<^verbatim>\<open>np.nan\<close> (no cell, air). A grid is the list of its rows.

  Python's \<^verbatim>\<open>int\<close> is \<^typ>\<open>int\<close>. A Python \<^verbatim>\<open>float\<close> is the real number it denotes: the
  parameters \<open>radius\<close>, \<open>side_length\<close> and \<open>empty_fraction\<close> range over the reals, of which
  the doubles are a subset. The float operations that the rectangular, hexagonal, circular
  and octagonal generators apply (product, sum, quotient, square root) round their exact
  result to the nearest double, a tie to the even significand. An \<^verbatim>\<open>int\<close> operand enters
  float arithmetic as the real of the same value, which is exact below \<open>2^53\<close>. Infinities,
  NaN and overflow are outside the model.

  The sunflower generator only ever computes the first point of its spiral, where every
  float operation is exact (\<open>0 / n = 0\<close>, \<open>sqrt 0 = 0\<close>, \<open>radius * 0 = 0\<close>, \<open>cos 0 = 1\<close>,
  \<open>sin 0 = 0\<close>); its arithmetic is written on the reals directly.
\<close>

datatype cell = Active | Passive | Empty

type_synonym grid = "cell list list"

datatype error = ValueError | IndexError | ZeroDivisionError

section \<open>The numpy and Python primitives the generators call\<close>

text \<open>\<^verbatim>\<open>np.full((r, c), v)\<close> and \<^verbatim>\<open>np.ones((r, c))\<close>: a negative dimension raises ValueError.\<close>

definition np_full :: "int \<Rightarrow> int \<Rightarrow> cell \<Rightarrow> error + grid" where
  "np_full r c v =
     (if r < 0 \<or> c < 0 then Inl ValueError
      else Inr (replicate (nat r) (replicate (nat c) v)))"

text \<open>An integer index along an axis of length \<open>n\<close>: negative indices count from the end,
  anything outside \<open>[-n, n)\<close> raises IndexError.\<close>

definition np_index :: "nat \<Rightarrow> int \<Rightarrow> error + nat" where
  "np_index n i =
     (if 0 \<le> i \<and> i < int n then Inr (nat i)
      else if - int n \<le> i \<and> i < 0 then Inr (nat (i + int n))
      else Inl IndexError)"

text \<open>\<^verbatim>\<open>a[i, j] = v\<close>\<close>

definition grid_set :: "grid \<Rightarrow> int \<Rightarrow> int \<Rightarrow> cell \<Rightarrow> error + grid" where
  "grid_set g i j v =
     (case np_index (length g) i of
        Inl e \<Rightarrow> Inl e
      | Inr i' \<Rightarrow>
          (case np_index (length (g ! i')) j of
             Inl e \<Rightarrow> Inl e
           | Inr j' \<Rightarrow> Inr (g[i' := (g ! i')[j' := v]])))"

text \<open>A slice bound against an axis of length \<open>n\<close>: negative bounds count from the end, and
  the result is clipped to \<open>[0, n]\<close>.\<close>

definition slice_bound :: "nat \<Rightarrow> int \<Rightarrow> nat" where
  "slice_bound n k = (if k < 0 then nat (max 0 (k + int n)) else min n (nat k))"

text \<open>\<^verbatim>\<open>a[i, start:stop] = v\<close>\<close>

definition grid_fill :: "grid \<Rightarrow> int \<Rightarrow> int \<Rightarrow> int \<Rightarrow> cell \<Rightarrow> error + grid" where
  "grid_fill g i start stop v =
     (case np_index (length g) i of
        Inl e \<Rightarrow> Inl e
      | Inr i' \<Rightarrow>
          (let row = g ! i';
               a = slice_bound (length row) start;
               b = slice_bound (length row) stop
           in Inr (g[i' := map (\<lambda>j. if a \<le> j \<and> j < b then v else row ! j) [0..<length row]])))"

text \<open>\<^verbatim>\<open>int(x)\<close> on a float truncates towards zero; \<^verbatim>\<open>round(x)\<close> rounds to the nearest
  integer, a tie to the even one.\<close>

definition py_int :: "real \<Rightarrow> int" where
  "py_int x = (if 0 \<le> x then \<lfloor>x\<rfloor> else \<lceil>x\<rceil>)"

definition py_round :: "real \<Rightarrow> int" where
  "py_round x =
     (let f = \<lfloor>x\<rfloor>; d = x - of_int f
      in if d < 1 / 2 then f else if 1 / 2 < d then f + 1 else if even f then f else f + 1)"

text \<open>
  Rounding to double precision: a non-zero \<open>x\<close> with \<open>2^E \<le> |x| < 2^(E+1)\<close> is rounded to
  the nearest multiple of \<open>2^(E-52)\<close>, a tie to the even multiple (53 significant bits);
  below the normal range the spacing stays at \<open>2^-1074\<close>.
\<close>

definition round_double :: "real \<Rightarrow> real" where
  "round_double x =
     (if x = 0 then 0
      else (let e = max (\<lfloor>log 2 \<bar>x\<bar>\<rfloor> - 52) (- 1074);
                q = 2 powi e
            in real_of_int (py_round (x / q)) * q))"

text \<open>The float operations \<^verbatim>\<open>x * y\<close>, \<^verbatim>\<open>x + y\<close>, \<^verbatim>\<open>x / y\<close> and \<^verbatim>\<open>np.sqrt(x)\<close>.\<close>

definition fmul :: "real \<Rightarrow> real \<Rightarrow> real" where
  "fmul x y = round_double (x * y)"

definition fadd :: "real \<Rightarrow> real \<Rightarrow> real" where
  "fadd x y = round_double (x + y)"

definition fdiv :: "real \<Rightarrow> real \<Rightarrow> real" where
  "fdiv x y = round_double (x / y)"

definition fsqrt :: "real \<Rightarrow> real" where
  "fsqrt x = round_double (sqrt x)"

definition py_divmod :: "int \<Rightarrow> int \<Rightarrow> error + int \<times> int" where
  "py_divmod a b = (if b = 0 then Inl ZeroDivisionError else Inr (a div b, a mod b))"

subsection \<open>The random source\<close>

text \<open>
  \<^verbatim>\<open>np.random\<close> is a process-wide generator. Its state is made explicit: an unbounded
  sequence of raw draws and the position of the next one. Every property below holds for
  every such state.
\<close>

record rng =
  draws :: "nat \<Rightarrow> nat"
  pos :: nat

definition next_raw :: "rng \<Rightarrow> nat \<times> rng" where
  "next_raw rs = (draws rs (pos rs), rs\<lparr>pos := Suc (pos rs)\<rparr>)"

text \<open>\<^verbatim>\<open>np.random.rand()\<close>: a multiple of \<open>2^-53\<close> in \<open>[0, 1)\<close>.\<close>

definition random_rand :: "rng \<Rightarrow> real \<times> rng" where
  "random_rand rs = (case next_raw rs of (k, rs') \<Rightarrow> (real (k mod 2 ^ 53) / 2 ^ 53, rs'))"

text \<open>\<^verbatim>\<open>np.random.permutation(n)\<close> shuffles \<^verbatim>\<open>arange(n)\<close> from the last index down to 1,
  swapping index \<open>i\<close> with a drawn index in \<open>[0, i]\<close>.\<close>

fun shuffle :: "nat \<Rightarrow> nat list \<Rightarrow> rng \<Rightarrow> nat list \<times> rng" where
  "shuffle 0 xs rs = (xs, rs)"
| "shuffle (Suc i) xs rs =
     (case next_raw rs of (k, rs') \<Rightarrow>
        (let j = k mod Suc (Suc i)
         in shuffle i (xs[Suc i := xs ! j, j := xs ! Suc i]) rs'))"

definition random_permutation :: "nat \<Rightarrow> rng \<Rightarrow> nat list \<times> rng" where
  "random_permutation n rs = shuffle (n - 1) [0..<n] rs"

text \<open>\<^verbatim>\<open>np.random.choice(a, sz, replace=False)\<close> for an integer population \<open>a\<close>: the
  first \<open>sz\<close> entries of a permutation of \<^verbatim>\<open>arange(a)\<close>; ValueError for an empty
  population with a non-zero sample, a sample larger than the population, or a negative
  sample size.\<close>

definition random_choice :: "int \<Rightarrow> int \<Rightarrow> rng \<Rightarrow> error + nat list \<times> rng" where
  "random_choice a sz rs =
     (if a \<le> 0 \<and> sz \<noteq> 0 then Inl ValueError
      else if a < sz then Inl ValueError
      else if sz < 0 then Inl ValueError
      else (case random_permutation (nat a) rs of (p, rs') \<Rightarrow> Inr (take (nat sz) p, rs')))"

section \<open>The generators\<close>

text \<open>\<^verbatim>\<open>0 if passive else np.nan\<close>\<close>

definition demoted :: "bool \<Rightarrow> cell" where
  "demoted passive = (if passive then Passive else Empty)"

subsection \<open>Sunflower\<close>

definition golden_angle :: real where
  "golden_angle = pi * (3 - sqrt 5)"

text \<open>\<^verbatim>\<open>0 if randomize and np.random.rand() < empty_fraction and passive else 1\<close>: the
  draw is taken only when \<open>randomize\<close> is set, and before \<open>passive\<close> is looked at.\<close>

definition sunflower_value :: "bool \<Rightarrow> real \<Rightarrow> bool \<Rightarrow> rng \<Rightarrow> cell \<times> rng" where
  "sunflower_value randomize empty_fraction passive rs =
     (if randomize then
        (case random_rand rs of (u, rs') \<Rightarrow>
           (if u < empty_fraction \<and> passive then Passive else Active, rs'))
      else (Active, rs))"

text \<open>
  The loop over \<^verbatim>\<open>range(n_points)\<close>. The \<^verbatim>\<open>return grid\<close> of the source is indented into
  the loop body, so the body of the first iteration returns and the remaining indices are
  never visited; when the range is empty the function falls off its end and returns
  \<^verbatim>\<open>None\<close>.
\<close>

fun sunflower_loop ::
  "int \<Rightarrow> real \<Rightarrow> int \<Rightarrow> bool \<Rightarrow> real \<Rightarrow> bool \<Rightarrow> nat list \<Rightarrow> grid \<times> rng \<Rightarrow> error + grid option \<times> rng"
where
  "sunflower_loop n_points radius grid_size randomize empty_fraction passive [] (grid, rs) =
     Inr (None, rs)"
| "sunflower_loop n_points radius grid_size randomize empty_fraction passive (i # rest) (grid, rs) =
     (let center = grid_size div 2;
          r = radius * sqrt (real i / real_of_int n_points);
          theta = real i * golden_angle;
          x = r * cos theta;
          y = r * sin theta;
          row = py_round (real_of_int center + y);
          col = py_round (real_of_int center + x)
      in if 0 \<le> row \<and> row < grid_size \<and> 0 \<le> col \<and> col < grid_size then
           (case sunflower_value randomize empty_fraction passive rs of (v, rs') \<Rightarrow>
              (case grid_set grid row col v of
                 Inl e \<Rightarrow> Inl e
               | Inr grid' \<Rightarrow> Inr (Some grid', rs')))
         else Inr (Some grid, rs))"

definition create_sunflower_array ::
  "int \<Rightarrow> real \<Rightarrow> int \<Rightarrow> bool \<Rightarrow> real \<Rightarrow> bool \<Rightarrow> rng \<Rightarrow> error + grid option \<times> rng"
where
  "create_sunflower_array n_points radius grid_size randomize empty_fraction passive rs =
     (case np_full grid_size grid_size Empty of
        Inl e \<Rightarrow> Inl e
      | Inr grid \<Rightarrow>
          sunflower_loop n_points radius grid_size randomize empty_fraction passive
            [0..<nat n_points] (grid, rs))"

subsection \<open>Rectangular\<close>

text \<open>The loop \<^verbatim>\<open>for pos in empty_positions\<close>: \<^verbatim>\<open>i, j = divmod(pos, columns)\<close>, then
  \<^verbatim>\<open>rect_array[i, j] = 0 if passive else np.nan\<close>.\<close>

fun rect_demote :: "int \<Rightarrow> bool \<Rightarrow> nat list \<Rightarrow> grid \<Rightarrow> error + grid" where
  "rect_demote columns passive [] rect_array = Inr rect_array"
| "rect_demote columns passive (p # ps) rect_array =
     (case py_divmod (int p) columns of
        Inl e \<Rightarrow> Inl e
      | Inr (i, j) \<Rightarrow>
          (case grid_set rect_array i j (demoted passive) of
             Inl e \<Rightarrow> Inl e
           | Inr rect_array' \<Rightarrow> rect_demote columns passive ps rect_array'))"

definition create_rectangular_array ::
  "int \<Rightarrow> int \<Rightarrow> bool \<Rightarrow> real \<Rightarrow> bool \<Rightarrow> rng \<Rightarrow> error + grid \<times> rng"
where
  "create_rectangular_array rows columns randomize empty_fraction passive rs =
     (case np_full rows columns Active of
        Inl e \<Rightarrow> Inl e
      | Inr rect_array \<Rightarrow>
          if randomize then
            (let num_cells = rows * columns;
                 num_empty_cells = py_int (fmul (real_of_int num_cells) empty_fraction)
             in case random_choice num_cells num_empty_cells rs of
                  Inl e \<Rightarrow> Inl e
                | Inr (empty_positions, rs') \<Rightarrow>
                    (case rect_demote columns passive empty_positions rect_array of
                       Inl e \<Rightarrow> Inl e
                     | Inr rect_array' \<Rightarrow> Inr (rect_array', rs')))
          else Inr (rect_array, rs))"

subsection \<open>Hexagonal\<close>

text \<open>The loop \<^verbatim>\<open>for i in range(size)\<close> that fills row \<open>i\<close> between \<open>start\<close> and \<open>end\<close> and
  appends the filled positions to \<^verbatim>\<open>cell_positions\<close>.\<close>

fun hex_fill ::
  "int \<Rightarrow> int \<Rightarrow> nat list \<Rightarrow> grid \<times> (int \<times> int) list \<Rightarrow> error + grid \<times> (int \<times> int) list"
where
  "hex_fill radius sz [] (hex_array, cell_positions) = Inr (hex_array, cell_positions)"
| "hex_fill radius sz (i # rest) (hex_array, cell_positions) =
     (let start = max 0 (radius - int i);
          stop = sz - max 0 (int i - radius)
      in case grid_fill hex_array (int i) start stop Active of
           Inl e \<Rightarrow> Inl e
         | Inr hex_array' \<Rightarrow>
             hex_fill radius sz rest
               (hex_array', cell_positions @ map (\<lambda>j. (int i, j)) [start..stop - 1]))"

text \<open>The loop \<^verbatim>\<open>for idx in empty_positions\<close>: \<^verbatim>\<open>i, j = cell_positions[idx]\<close>, then
  \<^verbatim>\<open>hex_array[i, j] = 0 if passive else np.nan\<close>.\<close>

fun hex_demote :: "(int \<times> int) list \<Rightarrow> bool \<Rightarrow> nat list \<Rightarrow> grid \<Rightarrow> error + grid" where
  "hex_demote cell_positions passive [] hex_array = Inr hex_array"
| "hex_demote cell_positions passive (idx # rest) hex_array =
     (if idx < length cell_positions then
        (case cell_positions ! idx of (i, j) \<Rightarrow>
           (case grid_set hex_array i j (demoted passive) of
              Inl e \<Rightarrow> Inl e
            | Inr hex_array' \<Rightarrow> hex_demote cell_positions passive rest hex_array'))
      else Inl IndexError)"

definition create_hexagonal_array ::
  "int \<Rightarrow> bool \<Rightarrow> real \<Rightarrow> bool \<Rightarrow> rng \<Rightarrow> error + grid \<times> rng"
where
  "create_hexagonal_array radius randomize empty_fraction passive rs =
     (let sz = 2 * radius + 1 in
      case np_full sz sz Empty of
        Inl e \<Rightarrow> Inl e
      | Inr hex_array0 \<Rightarrow>
          (case hex_fill radius sz [0..<nat sz] (hex_array0, []) of
             Inl e \<Rightarrow> Inl e
           | Inr (hex_array, cell_positions) \<Rightarrow>
               if randomize then
                 (let num_empty_cells =
                        py_int (fmul (real (length cell_positions)) empty_fraction)
                  in case random_choice (int (length cell_positions)) num_empty_cells rs of
                       Inl e \<Rightarrow> Inl e
                     | Inr (empty_positions, rs') \<Rightarrow>
                         (case hex_demote cell_positions passive empty_positions hex_array of
                            Inl e \<Rightarrow> Inl e
                          | Inr hex_array' \<Rightarrow> Inr (hex_array', rs')))
               else Inr (hex_array, rs)))"

subsection \<open>Circular and octagonal\<close>

text \<open>
  Both generators run the same double loop over \<^verbatim>\<open>range(grid_size)\<close> and differ only in
  the test that decides whether cell \<open>(i, j)\<close> lies in the shape. A cell in the shape is set
  by
  \<^verbatim>\<open>
  if randomize and np.random.rand() < empty_fraction:
      grid[i, j] = 0 if passive else np.nan
  else:
      grid[i, j] = 1
  \<close>
  where the draw is taken only when \<open>randomize\<close> is set.
\<close>

definition bernoulli_value :: "bool \<Rightarrow> real \<Rightarrow> bool \<Rightarrow> rng \<Rightarrow> cell \<times> rng" where
  "bernoulli_value randomize empty_fraction passive rs =
     (if randomize then
        (case random_rand rs of (u, rs') \<Rightarrow>
           (if u < empty_fraction then demoted passive else Active, rs'))
      else (Active, rs))"

fun scan_row ::
  "(nat \<Rightarrow> nat \<Rightarrow> bool) \<Rightarrow> bool \<Rightarrow> real \<Rightarrow> bool \<Rightarrow> nat \<Rightarrow> nat list \<Rightarrow> grid \<times> rng \<Rightarrow> error + grid \<times> rng"
where
  "scan_row inside randomize empty_fraction passive i [] (grid, rs) = Inr (grid, rs)"
| "scan_row inside randomize empty_fraction passive i (j # rest) (grid, rs) =
     (if inside i j then
        (case bernoulli_value randomize empty_fraction passive rs of (v, rs') \<Rightarrow>
           (case grid_set grid (int i) (int j) v of
              Inl e \<Rightarrow> Inl e
            | Inr grid' \<Rightarrow> scan_row inside randomize empty_fraction passive i rest (grid', rs')))
      else scan_row inside randomize empty_fraction passive i rest (grid, rs))"

fun scan_rows ::
  "(nat \<Rightarrow> nat \<Rightarrow> bool) \<Rightarrow> bool \<Rightarrow> real \<Rightarrow> bool \<Rightarrow> int \<Rightarrow> nat list \<Rightarrow> grid \<times> rng \<Rightarrow> error + grid \<times> rng"
where
  "scan_rows inside randomize empty_fraction passive grid_size [] (grid, rs) = Inr (grid, rs)"
| "scan_rows inside randomize empty_fraction passive grid_size (i # rest) (grid, rs) =
     (case scan_row inside randomize empty_fraction passive i [0..<nat grid_size] (grid, rs) of
        Inl e \<Rightarrow> Inl e
      | Inr s \<Rightarrow> scan_rows inside randomize empty_fraction passive grid_size rest s)"

text \<open>\<^verbatim>\<open>np.sqrt((i - center) ** 2 + (j - center) ** 2) <= radius\<close>\<close>

definition in_circle :: "int \<Rightarrow> real \<Rightarrow> nat \<Rightarrow> nat \<Rightarrow> bool" where
  "in_circle center radius i j \<longleftrightarrow>
     fsqrt (real_of_int ((int i - center)\<^sup>2 + (int j - center)\<^sup>2)) \<le> radius"

definition create_circular_array ::
  "int \<Rightarrow> real \<Rightarrow> bool \<Rightarrow> real \<Rightarrow> bool \<Rightarrow> rng \<Rightarrow> error + grid \<times> rng"
where
  "create_circular_array grid_size radius randomize empty_fraction passive rs =
     (case np_full grid_size grid_size Empty of
        Inl e \<Rightarrow> Inl e
      | Inr grid \<Rightarrow>
          (let center = grid_size div 2
           in scan_rows (in_circle center radius) randomize empty_fraction passive grid_size
                [0..<nat grid_size] (grid, rs)))"

text \<open>\<^verbatim>\<open>x_dist + y_dist <= max_dist_from_center and max(x_dist, y_dist) <= side_length * np.sqrt(2)\<close>\<close>

definition in_octagon :: "int \<Rightarrow> real \<Rightarrow> nat \<Rightarrow> nat \<Rightarrow> bool" where
  "in_octagon center side_length i j \<longleftrightarrow>
     (let max_dist_from_center = fmul side_length (fadd 1 (fdiv (fsqrt 2) 2));
          x_dist = \<bar>int i - center\<bar>;
          y_dist = \<bar>int j - center\<bar>
      in real_of_int (x_dist + y_dist) \<le> max_dist_from_center
         \<and> real_of_int (max x_dist y_dist) \<le> fmul side_length (fsqrt 2))"

definition create_octagonal_array ::
  "int \<Rightarrow> real \<Rightarrow> bool \<Rightarrow> real \<Rightarrow> bool \<Rightarrow> rng \<Rightarrow> error + grid \<times> rng"
where
  "create_octagonal_array grid_size side_length randomize empty_fraction passive rs =
     (case np_full grid_size grid_size Empty of
        Inl e \<Rightarrow> Inl e
      | Inr grid \<Rightarrow>
          (let center = grid_size div 2
           in scan_rows (in_octagon center side_length) randomize empty_fraction passive grid_size
                [0..<nat grid_size] (grid, rs)))"

section \<open>Notions used to state the properties\<close>

text \<open>The number of cells of a grid that are not \<open>Empty\<close>.\<close>

definition non_empty_count :: "grid \<Rightarrow> nat" where
  "non_empty_count g = length (filter (\<lambda>c. c \<noteq> Empty) (concat g))"

text \<open>A grid of \<open>n\<close> rows of \<open>m\<close> cells each.\<close>

definition grid_shape :: "nat \<Rightarrow> nat \<Rightarrow> grid \<Rightarrow> bool" where
  "grid_shape n m g \<longleftrightarrow> length g = n \<and> (\<forall>i < n. length (g ! i) = m)"

text \<open>Cell \<open>(i, j)\<close> lies in the hexagon of the given radius: column \<open>j\<close> is in the range
  \<open>[start, end)\<close> that the hexagonal generator computes for row \<open>i\<close>.\<close>

definition in_hexagon :: "int \<Rightarrow> nat \<Rightarrow> nat \<Rightarrow> bool" where
  "in_hexagon radius i j \<longleftrightarrow>
     max 0 (radius - int i) \<le> int j \<and> int j < 2 * radius + 1 - max 0 (int i - radius)"

text \<open>What the caller of a generator sees: the error raised or the value returned, without
  the state of the random source.\<close>

definition outcome :: "error + 'a \<times> rng \<Rightarrow> error + 'a" where
  "outcome r = (case r of Inl e \<Rightarrow> Inl e | Inr (g, rs) \<Rightarrow> Inr g)"

section \<open>Auxiliary functions of the proofs\<close>

text \<open>The contents of \<^verbatim>\<open>cell_positions\<close> after the fill loop of the hexagonal generator has
  visited the given rows.\<close>

definition hex_positions :: "int \<Rightarrow> nat list \<Rightarrow> (int \<times> int) list" where
  "hex_positions radius rows =
     concat (map (\<lambda>i. map (\<lambda>j. (int i, j))
                   [max 0 (radius - int i)..2 * radius + 1 - max 0 (int i - radius) - 1]) rows)"

text \<open>Assigning one value to a list of positions, in order; both demotion loops are
  instances of it.\<close>

fun put_cells :: "cell \<Rightarrow> (int \<times> int) list \<Rightarrow> grid \<Rightarrow> error + grid" where
  "put_cells v [] g = Inr g"
| "put_cells v ((i, j) # ps) g =
     (case grid_set g i j v of Inl e \<Rightarrow> Inl e | Inr g' \<Rightarrow> put_cells v ps g')"


section \<open>Facts about the primitives and the loops\<close>

subsection \<open>Rounding to double precision\<close>

lemma py_round_of_int: "py_round (real_of_int c) = c"
  by (simp add: py_round_def)


lemma py_round_le: "x \<le> real_of_int m \<Longrightarrow> py_round x \<le> m"
proof -
  assume x: "x \<le> real_of_int m"
  show ?thesis
  proof (cases "x = real_of_int m")
    case True
    then show ?thesis by (simp add: py_round_of_int)
  next
    case False
    with x have "x < real_of_int m" by simp
    then have "\<lfloor>x\<rfloor> < m" by (simp add: floor_less_iff)
    then have "\<lfloor>x\<rfloor> + 1 \<le> m" by simp
    moreover have "py_round x \<le> \<lfloor>x\<rfloor> + 1" by (simp add: py_round_def Let_def)
    ultimately show ?thesis by linarith
  qed
qed

lemma py_round_ge: "real_of_int m \<le> x \<Longrightarrow> m \<le> py_round x"
proof -
  assume "real_of_int m \<le> x"
  then have "m \<le> \<lfloor>x\<rfloor>" by (simp add: le_floor_iff)
  moreover have "\<lfloor>x\<rfloor> \<le> py_round x" by (simp add: py_round_def Let_def)
  ultimately show ?thesis by linarith
qed

lemma py_round_nearest:
  "real_of_int m - 1 / 2 < x \<Longrightarrow> x < real_of_int m + 1 / 2 \<Longrightarrow> py_round x = m"
proof -
  assume a: "real_of_int m - 1 / 2 < x" and b: "x < real_of_int m + 1 / 2"
  have "\<lfloor>x\<rfloor> = m \<or> \<lfloor>x\<rfloor> = m - 1"
  proof -
    have "real_of_int (m - 1) \<le> x" using a by simp
    then have "m - 1 \<le> \<lfloor>x\<rfloor>" by (simp only: le_floor_iff)
    moreover have "x < real_of_int (m + 1)" using b by simp
    then have "\<lfloor>x\<rfloor> < m + 1" by (simp only: floor_less_iff)
    ultimately show ?thesis by linarith
  qed
  then show ?thesis
  proof
    assume f: "\<lfloor>x\<rfloor> = m"
    then have "x - real_of_int \<lfloor>x\<rfloor> < 1 / 2" using b by simp
    then show ?thesis using f by (simp add: py_round_def Let_def)
  next
    assume f: "\<lfloor>x\<rfloor> = m - 1"
    then have "1 / 2 < x - real_of_int \<lfloor>x\<rfloor>" using a by simp
    then show ?thesis using f by (simp add: py_round_def Let_def)
  qed
qed

lemma powr_powi: "2 powr real_of_int E = 2 powi E" "2 powr (real_of_int E + 1) = 2 powi (E + 1)"
  using powr_real_of_int' [of 2 E] powr_real_of_int' [of 2 "E + 1"] by simp_all

lemma binade:
  assumes "0 < x"
  shows "2 powi \<lfloor>log 2 x\<rfloor> \<le> x" and "x < 2 powi (\<lfloor>log 2 x\<rfloor> + 1)"
proof -
  have "2 powr real_of_int \<lfloor>log 2 x\<rfloor> \<le> x \<and> x < 2 powr (real_of_int \<lfloor>log 2 x\<rfloor> + 1)"
    using floor_log_eq_powr_iff [of x 2 "\<lfloor>log 2 x\<rfloor>"] assms by simp
  then show "2 powi \<lfloor>log 2 x\<rfloor> \<le> x" and "x < 2 powi (\<lfloor>log 2 x\<rfloor> + 1)"
    unfolding powr_powi by simp_all
qed

lemma binade_unique:
  assumes "2 powi E \<le> x" "x < 2 powi (E + 1)"
  shows "\<lfloor>log 2 x\<rfloor> = E"
proof -
  have "(0::real) < 2 powi E" by simp
  then have x: "0 < x" using assms(1) by linarith
  have "2 powr real_of_int E \<le> x \<and> x < 2 powr (real_of_int E + 1)"
    unfolding powr_powi using assms by simp
  then show ?thesis using floor_log_eq_powr_iff [of x 2 E] x by simp
qed

lemma round_double_eval:
  assumes "2 powi E \<le> x" "x < 2 powi (E + 1)" "- 1022 \<le> E"
  shows "round_double x = real_of_int (py_round (x / 2 powi (E - 52))) * 2 powi (E - 52)"
proof -
  have "(0::real) < 2 powi E" by simp
  then have x: "0 < x" using assms(1) by linarith
  have "\<lfloor>log 2 \<bar>x\<bar>\<rfloor> = E" using binade_unique [OF assms(1,2)] x by simp
  moreover have "max (E - 52) (- 1074) = E - 52" using assms(3) by simp
  ultimately show ?thesis using x by (simp add: round_double_def Let_def)
qed

lemma round_double_nonneg: "0 \<le> x \<Longrightarrow> 0 \<le> round_double x"
proof (cases "x = 0")
  case True
  then show ?thesis by (simp add: round_double_def)
next
  case False
  assume "0 \<le> x"
  define q :: real where "q = 2 powi (max (\<lfloor>log 2 \<bar>x\<bar>\<rfloor> - 52) (- 1074))"
  have q: "0 < q" by (simp add: q_def)
  have "real_of_int 0 \<le> x / q" using \<open>0 \<le> x\<close> q by simp
  then have "0 \<le> py_round (x / q)" by (rule py_round_ge)
  then have "0 \<le> real_of_int (py_round (x / q)) * q" using q by simp
  then show ?thesis using False by (simp add: round_double_def Let_def q_def)
qed

lemma scaled_int:
  assumes "e \<le> 0"
  shows "real_of_int N / 2 powi e = real_of_int (N * 2 ^ nat (- e))"
proof -
  have "(2::real) powi e = inverse (2 ^ nat (- e))"
    using assms by (cases "e = 0") (simp_all add: power_int_def power_one_over inverse_eq_divide)
  then show ?thesis by (simp add: field_simps)
qed

lemma binade_exponent_less:
  assumes "(2::real) powi E < 2 powi F"
  shows "E < F"
proof (rule ccontr)
  assume "\<not> E < F"
  then have "F \<le> E" by simp
  then have "(2::real) powi F \<le> 2 powi E" by (intro power_int_increasing) simp_all
  with assms show False by simp
qed

lemma round_double_le_int:
  assumes "0 \<le> x" "x \<le> real_of_int N" "N < 2 ^ 53"
  shows "round_double x \<le> real_of_int N"
proof (cases "x = 0")
  case True
  then show ?thesis using assms by (simp add: round_double_def)
next
  case False
  then have x: "0 < x" using assms(1) by simp
  define E where "E = \<lfloor>log 2 \<bar>x\<bar>\<rfloor>"
  define e where "e = max (E - 52) (- 1074)"
  define q :: real where "q = 2 powi e"
  have q: "0 < q" by (simp add: q_def)
  have "2 powi E \<le> x" using binade(1) [OF x] x by (simp add: E_def)
  also have "x \<le> real_of_int N" by fact
  also have "real_of_int N < 2 powi 53" using assms(3) by (simp flip: of_int_less_iff)
  finally have "E < 53" by (rule binade_exponent_less)
  then have e: "e \<le> 0" by (simp add: e_def)
  have "x / q \<le> real_of_int N / q" using assms(2) q by (simp add: divide_right_mono)
  also have "\<dots> = real_of_int (N * 2 ^ nat (- e))" unfolding q_def by (rule scaled_int [OF e])
  finally have "py_round (x / q) \<le> N * 2 ^ nat (- e)" by (rule py_round_le)
  then have "real_of_int (py_round (x / q)) \<le> real_of_int (N * 2 ^ nat (- e))"
    by (simp only: of_int_le_iff)
  also have "\<dots> = real_of_int N / q" unfolding q_def by (rule scaled_int [OF e, symmetric])
  finally have "real_of_int (py_round (x / q)) * q \<le> real_of_int N"
    using q by (simp add: field_simps)
  then show ?thesis using False by (simp add: round_double_def Let_def q_def e_def E_def)
qed

lemma round_double_ge_int:
  assumes "real_of_int N \<le> x" "0 \<le> N" "N < 2 ^ 53"
  shows "real_of_int N \<le> round_double x"
proof (cases "N = 0")
  case True
  then show ?thesis using assms round_double_nonneg [of x] by simp
next
  case False
  then have N: "1 \<le> N" using assms(2) by simp
  then have x1: "1 \<le> x" using assms(1) by linarith
  then have x: "0 < x" by simp
  define E where "E = \<lfloor>log 2 \<bar>x\<bar>\<rfloor>"
  define e where "e = E - 52"
  define q :: real where "q = 2 powi e"
  have q: "0 < q" by (simp add: q_def)
  have lo: "2 powi E \<le> x" and hi: "x < 2 powi (E + 1)"
    using binade [OF x] x by (simp_all add: E_def)
  have "(2::real) powi 0 < 2 powi (E + 1)" using x1 hi by simp
  then have E0: "0 \<le> E" using binade_exponent_less [of 0 "E + 1"] by simp
  have rd: "round_double x = real_of_int (py_round (x / q)) * q"
    using round_double_eval [OF lo hi] E0 by (simp add: q_def e_def)
  show ?thesis
  proof (cases "E \<le> 52")
    case True
    then have e: "e \<le> 0" by (simp add: e_def)
    have "real_of_int (N * 2 ^ nat (- e)) = real_of_int N / q"
      unfolding q_def by (rule scaled_int [OF e, symmetric])
    also have "\<dots> \<le> x / q" using assms(1) q by (simp add: divide_right_mono)
    finally have "N * 2 ^ nat (- e) \<le> py_round (x / q)" by (rule py_round_ge)
    then have "real_of_int (N * 2 ^ nat (- e)) \<le> real_of_int (py_round (x / q))"
      by (simp only: of_int_le_iff)
    moreover have "real_of_int (N * 2 ^ nat (- e)) = real_of_int N / q"
      unfolding q_def by (rule scaled_int [OF e, symmetric])
    ultimately have "real_of_int N / q \<le> real_of_int (py_round (x / q))"
      by (simp only:)
    then have "real_of_int N \<le> real_of_int (py_round (x / q)) * q"
      by (simp only: pos_divide_le_eq [OF q])
    then show ?thesis using rd by simp
  next
    case False
    then have E53: "53 \<le> E" by simp
    have "(2::real) powi E / q = 2 powi 52"
      unfolding q_def e_def by (simp add: power_int_diff)
    moreover have "2 powi E / q \<le> x / q" using lo q by (simp add: divide_right_mono)
    ultimately have "2 powi 52 \<le> x / q" by (simp only:)
    then have "real_of_int (2 ^ 52) \<le> x / q" by simp
    then have "2 ^ 52 \<le> py_round (x / q)" by (rule py_round_ge)
    then have "real_of_int (2 ^ 52) \<le> real_of_int (py_round (x / q))"
      by (simp only: of_int_le_iff)
    then have "2 powi 52 * q \<le> real_of_int (py_round (x / q)) * q"
      using q by simp
    moreover have "2 powi 52 * q = 2 powi E"
      unfolding q_def e_def by (simp add: power_int_diff)
    moreover have "(2::real) powi 53 \<le> 2 powi E" using E53 by (intro power_int_increasing) simp_all
    moreover have "real_of_int N < 2 powi 53" using assms(3) by (simp flip: of_int_less_iff)
    ultimately show ?thesis using rd by linarith
  qed
qed

lemma round_double_of_int:
  assumes "0 \<le> N" "N < 2 ^ 53"
  shows "round_double (real_of_int N) = real_of_int N"
proof (rule antisym)
  show "round_double (real_of_int N) \<le> real_of_int N"
    using assms by (intro round_double_le_int) simp_all
  show "real_of_int N \<le> round_double (real_of_int N)"
    using assms by (intro round_double_ge_int) simp_all
qed

lemma round_double_value:
  assumes "2 powi E \<le> x" "x < 2 powi (E + 1)" "- 1022 \<le> E"
    and "real_of_int m - 1 / 2 < x / 2 powi (E - 52)" "x / 2 powi (E - 52) < real_of_int m + 1 / 2"
  shows "round_double x = real_of_int m * 2 powi (E - 52)"
  using round_double_eval [OF assms(1,2,3)] py_round_nearest [OF assms(4,5)] by simp


subsection \<open>Indexing and shapes\<close>

lemma np_index_nat: "i < n \<Longrightarrow> np_index n (int i) = Inr i"
  by (simp add: np_index_def)

lemma grid_set_nat:
  "i < length g \<Longrightarrow> j < length (g ! i) \<Longrightarrow>
   grid_set g (int i) (int j) v = Inr (g[i := (g ! i)[j := v]])"
  by (simp add: grid_set_def np_index_nat)

lemma grid_shape_replicate: "grid_shape n m (replicate n (replicate m v))"
  by (simp add: grid_shape_def)

lemma grid_shape_update:
  "grid_shape n m g \<Longrightarrow> length row = m \<Longrightarrow> grid_shape n m (g[i := row])"
  by (cases "i < length g") (auto simp: grid_shape_def nth_list_update)

subsection \<open>The fill loop of the hexagonal generator\<close>

text \<open>The loop keeps the shape of the grid, sets row \<open>i\<close> to \<open>Active\<close> exactly on the columns of the
  hexagon, and appends those positions in row-major order.\<close>

lemma grid_fill_nat:
  "i < length g \<Longrightarrow>
   grid_fill g (int i) s e v =
     Inr (g[i := map (\<lambda>j. if slice_bound (length (g ! i)) s \<le> j \<and> j < slice_bound (length (g ! i)) e
                          then v else g ! i ! j) [0..<length (g ! i)]])"
  by (simp add: grid_fill_def np_index_nat Let_def)

lemma hex_row_fill:
  assumes "0 \<le> radius" "n = nat (2 * radius + 1)" "i < n" "b < n"
  shows "(slice_bound n (max 0 (radius - int i)) \<le> b
          \<and> b < slice_bound n (2 * radius + 1 - max 0 (int i - radius)))
         \<longleftrightarrow> in_hexagon radius i b"
  using assms by (auto simp: slice_bound_def in_hexagon_def)

lemma hex_fill_step:
  assumes r: "0 \<le> radius" and n: "n = nat (2 * radius + 1)"
    and sh: "grid_shape n n g" and i: "i < n"
  shows "\<exists>g1. grid_fill g (int i) (max 0 (radius - int i))
                 (2 * radius + 1 - max 0 (int i - radius)) Active = Inr g1
           \<and> grid_shape n n g1
           \<and> (\<forall>a < n. \<forall>b < n. g1 ! a ! b = (if a = i \<and> in_hexagon radius a b then Active else g ! a ! b))"
proof -
  let ?s = "max 0 (radius - int i)" and ?e = "2 * radius + 1 - max 0 (int i - radius)"
  let ?row = "map (\<lambda>j. if slice_bound n ?s \<le> j \<and> j < slice_bound n ?e then Active else g ! i ! j) [0..<n]"
  have len: "length g = n" "length (g ! i) = n"
    using sh i by (auto simp: grid_shape_def)
  have fill: "grid_fill g (int i) ?s ?e Active = Inr (g[i := ?row])"
    using grid_fill_nat [of i g ?s ?e Active] len i by simp
  have shape: "grid_shape n n (g[i := ?row])"
    using sh by (intro grid_shape_update) auto
  have cells: "(g[i := ?row]) ! a ! b = (if a = i \<and> in_hexagon radius a b then Active else g ! a ! b)"
    if "a < n" "b < n" for a b
  proof (cases "a = i")
    case True
    then have "(g[i := ?row]) ! a ! b = ?row ! b" using len i by simp
    also have "\<dots> = (if in_hexagon radius i b then Active else g ! i ! b)"
      using that hex_row_fill [OF r n i that(2)] by simp
    finally show ?thesis using True by simp
  next
    case False
    then show ?thesis by simp
  qed
  show ?thesis using fill shape cells by blast
qed

lemma hex_positions_Cons:
  "hex_positions radius (i # rows) =
     map (\<lambda>j. (int i, j)) [max 0 (radius - int i)..2 * radius + 1 - max 0 (int i - radius) - 1]
     @ hex_positions radius rows"
  by (simp add: hex_positions_def)

lemma hex_fill_result:
  assumes r: "0 \<le> radius" and n: "n = nat (2 * radius + 1)"
    and sh: "grid_shape n n g" and rows: "\<forall>i \<in> set rows. i < n"
  shows "\<exists>g'. hex_fill radius (2 * radius + 1) rows (g, cps)
                = Inr (g', cps @ hex_positions radius rows)
           \<and> grid_shape n n g'
           \<and> (\<forall>a < n. \<forall>b < n.
                 g' ! a ! b = (if a \<in> set rows \<and> in_hexagon radius a b then Active else g ! a ! b))"
  using sh rows
proof (induction rows arbitrary: g cps)
  case Nil
  then show ?case by (simp add: hex_positions_def)
next
  case (Cons i rows)
  from Cons.prems have i: "i < n" and rest: "\<forall>i \<in> set rows. i < n" by auto
  from hex_fill_step [OF r n Cons.prems(1) i]
  obtain g1 where g1: "grid_fill g (int i) (max 0 (radius - int i))
                         (2 * radius + 1 - max 0 (int i - radius)) Active = Inr g1"
    and sh1: "grid_shape n n g1"
    and c1: "\<forall>a < n. \<forall>b < n. g1 ! a ! b = (if a = i \<and> in_hexagon radius a b then Active else g ! a ! b)"
    by blast
  from Cons.IH [OF sh1 rest, of "cps @ map (\<lambda>j. (int i, j))
        [max 0 (radius - int i)..2 * radius + 1 - max 0 (int i - radius) - 1]"]
  obtain g' where g': "hex_fill radius (2 * radius + 1) rows
        (g1, cps @ map (\<lambda>j. (int i, j)) [max 0 (radius - int i)..2 * radius + 1 - max 0 (int i - radius) - 1])
        = Inr (g', (cps @ map (\<lambda>j. (int i, j)) [max 0 (radius - int i)..2 * radius + 1 - max 0 (int i - radius) - 1])
                   @ hex_positions radius rows)"
    and sh': "grid_shape n n g'"
    and c': "\<forall>a < n. \<forall>b < n. g' ! a ! b = (if a \<in> set rows \<and> in_hexagon radius a b then Active else g1 ! a ! b)"
    by blast
  have "hex_fill radius (2 * radius + 1) (i # rows) (g, cps)
          = Inr (g', cps @ hex_positions radius (i # rows))"
    using g1 g' by (simp add: Let_def hex_positions_Cons)
  moreover have "\<forall>a < n. \<forall>b < n.
      g' ! a ! b = (if a \<in> set (i # rows) \<and> in_hexagon radius a b then Active else g ! a ! b)"
    using c1 c' by auto
  ultimately show ?case using sh' by blast
qed

lemma hexagonal_plain:
  assumes r: "0 \<le> radius"
  shows "\<exists>g. create_hexagonal_array radius False empty_fraction pv rs = Inr (g, rs)
           \<and> grid_shape (nat (2 * radius + 1)) (nat (2 * radius + 1)) g
           \<and> (\<forall>a < nat (2 * radius + 1). \<forall>b < nat (2 * radius + 1).
                 g ! a ! b = (if in_hexagon radius a b then Active else Empty))"
proof -
  let ?n = "nat (2 * radius + 1)"
  from hex_fill_result [OF r refl grid_shape_replicate, of "[0..<?n]" Empty "[]"]
  obtain g' where g': "hex_fill radius (2 * radius + 1) [0..<?n] (replicate ?n (replicate ?n Empty), [])
                = Inr (g', [] @ hex_positions radius [0..<?n])"
    and sh: "grid_shape ?n ?n g'"
    and c: "\<forall>a < ?n. \<forall>b < ?n.
                 g' ! a ! b = (if a \<in> set [0..<?n] \<and> in_hexagon radius a b then Active
                               else replicate ?n (replicate ?n Empty) ! a ! b)"
    by auto
  have "create_hexagonal_array radius False empty_fraction pv rs = Inr (g', rs)"
    using r g' by (simp add: create_hexagonal_array_def np_full_def Let_def)
  moreover have "\<forall>a < ?n. \<forall>b < ?n. g' ! a ! b = (if in_hexagon radius a b then Active else Empty)"
    using c by simp
  ultimately show ?thesis using sh by blast
qed

subsection \<open>Sampling without replacement\<close>

text \<open>Whatever the random source draws, the shuffle permutes its input, so a sample consists of
  distinct indices below the population size.\<close>

lemma shuffle_mset: "i < length xs \<or> (i = 0 \<and> xs = []) \<Longrightarrow> mset (fst (shuffle i xs rs)) = mset xs"
proof (induction i arbitrary: xs rs)
  case 0
  then show ?case by simp
next
  case (Suc i)
  obtain k rs' where k: "next_raw rs = (k, rs')" by (cases "next_raw rs")
  let ?j = "k mod Suc (Suc i)"
  let ?ys = "xs[Suc i := xs ! ?j, ?j := xs ! Suc i]"
  from Suc.prems have len: "Suc i < length xs" by simp
  have j: "?j < length xs" using len by (meson less_trans_Suc mod_less_divisor not_less_eq zero_less_Suc)
  have "mset ?ys = mset xs" using mset_swap [OF j len] .
  moreover have "mset (fst (shuffle i ?ys rs')) = mset ?ys"
    using len by (intro Suc.IH) simp
  ultimately show ?case using k by (simp add: Let_def)
qed

lemma random_permutation_mset: "mset (fst (random_permutation n rs)) = mset [0..<n]"
  unfolding random_permutation_def by (rule shuffle_mset) (cases n; simp)

lemma random_choice_ok:
  assumes "0 \<le> sz" "sz \<le> a"
  shows "\<exists>idxs rs'. random_choice a sz rs = Inr (idxs, rs')
           \<and> distinct idxs \<and> set idxs \<subseteq> {..<nat a} \<and> length idxs = nat sz"
proof -
  obtain p rs' where p: "random_permutation (nat a) rs = (p, rs')"
    by (cases "random_permutation (nat a) rs")
  have m: "mset p = mset [0..<nat a]"
    using random_permutation_mset [of "nat a" rs] p by simp
  have d: "distinct p" using m by (metis distinct_upt mset_eq_imp_distinct_iff)
  have s: "set p = {..<nat a}" using m by (metis atLeast_upt mset_eq_setD)
  have l: "length p = nat a" using m by (metis length_upt mset_eq_length minus_nat.diff_0)
  have "random_choice a sz rs = Inr (take (nat sz) p, rs')"
    using assms p by (auto simp: random_choice_def)
  moreover have "distinct (take (nat sz) p)" using d by simp
  moreover have "set (take (nat sz) p) \<subseteq> {..<nat a}" using s set_take_subset by fastforce
  moreover have "length (take (nat sz) p) = nat sz" using l assms by simp
  ultimately show ?thesis by blast
qed

subsection \<open>The demotion loops\<close>

lemma grid_set_int:
  assumes "grid_shape n m g" "0 \<le> i" "i < int n" "0 \<le> j" "j < int m"
  shows "grid_set g i j v = Inr (g[nat i := (g ! nat i)[nat j := v]])"
  using assms grid_set_nat [of "nat i" g "nat j" v] by (simp add: grid_shape_def)

lemma put_cells_result:
  assumes "grid_shape n m g" "\<forall>(i, j) \<in> set ps. 0 \<le> i \<and> i < int n \<and> 0 \<le> j \<and> j < int m"
  shows "\<exists>g'. put_cells v ps g = Inr g' \<and> grid_shape n m g'
           \<and> (\<forall>a < n. \<forall>b < m. g' ! a ! b = (if (int a, int b) \<in> set ps then v else g ! a ! b))"
  using assms
proof (induction ps arbitrary: g)
  case Nil
  then show ?case by simp
next
  case (Cons p ps)
  obtain i j where p: "p = (i, j)" by (cases p)
  from Cons.prems p have ij: "0 \<le> i" "i < int n" "0 \<le> j" "j < int m"
    and rest: "\<forall>(i, j) \<in> set ps. 0 \<le> i \<and> i < int n \<and> 0 \<le> j \<and> j < int m" by auto
  let ?g1 = "g[nat i := (g ! nat i)[nat j := v]]"
  have g1: "grid_set g i j v = Inr ?g1"
    using grid_set_int [OF Cons.prems(1) ij] .
  have len: "length g = n" "length (g ! nat i) = m"
    using Cons.prems(1) ij by (auto simp: grid_shape_def)
  have sh1: "grid_shape n m ?g1"
    using Cons.prems(1) len by (intro grid_shape_update) auto
  have c1: "?g1 ! a ! b = (if (int a, int b) = (i, j) then v else g ! a ! b)"
    if "a < n" "b < m" for a b
    using that len ij by (cases "a = nat i"; cases "b = nat j") (auto simp: nth_list_update)
  from Cons.IH [OF sh1 rest] obtain g' where g': "put_cells v ps ?g1 = Inr g'"
    and sh': "grid_shape n m g'"
    and c': "\<forall>a < n. \<forall>b < m. g' ! a ! b = (if (int a, int b) \<in> set ps then v else ?g1 ! a ! b)"
    by blast
  have "put_cells v (p # ps) g = Inr g'" using p g1 g' by simp
  moreover have "\<forall>a < n. \<forall>b < m. g' ! a ! b = (if (int a, int b) \<in> set (p # ps) then v else g ! a ! b)"
    using c' c1 p by auto
  ultimately show ?case using sh' by blast
qed

lemma rect_demote_put_cells:
  "columns \<noteq> 0 \<Longrightarrow>
   rect_demote columns pv idxs g
     = put_cells (demoted pv) (map (\<lambda>p. (int p div columns, int p mod columns)) idxs) g"
  by (induction idxs arbitrary: g) (auto simp: py_divmod_def split: sum.splits)

lemma hex_demote_put_cells:
  "\<forall>idx \<in> set idxs. idx < length cps \<Longrightarrow>
   hex_demote cps pv idxs g = put_cells (demoted pv) (map (nth cps) idxs) g"
  by (induction idxs arbitrary: g) (auto split: sum.splits prod.splits)

subsection \<open>The randomised rectangular generator\<close>

lemma py_int_fraction:
  assumes "0 \<le> f" "f \<le> 1" "int N < 2 ^ 53"
  shows "py_int (fmul (real N) f) = \<lfloor>fmul (real N) f\<rfloor>"
    and "0 \<le> \<lfloor>fmul (real N) f\<rfloor>" and "\<lfloor>fmul (real N) f\<rfloor> \<le> int N"
proof -
  have nn: "0 \<le> real N * f" using assms by simp
  then have fnn: "0 \<le> fmul (real N) f" unfolding fmul_def by (rule round_double_nonneg)
  then show "py_int (fmul (real N) f) = \<lfloor>fmul (real N) f\<rfloor>" by (simp add: py_int_def)
  show "0 \<le> \<lfloor>fmul (real N) f\<rfloor>" using fnn by simp
  have "real N * f \<le> real_of_int (int N)" using assms by (simp add: mult_left_le)
  then have "fmul (real N) f \<le> real_of_int (int N)"
    unfolding fmul_def using nn assms(3) by (intro round_double_le_int)
  then show "\<lfloor>fmul (real N) f\<rfloor> \<le> int N" by (simp add: floor_le_iff)
qed

lemma card_int_pairs:
  assumes "finite P" "\<forall>(x, y) \<in> P. 0 \<le> x \<and> x < int n \<and> 0 \<le> y \<and> y < int m"
  shows "card {(a, b). a < n \<and> b < m \<and> (int a, int b) \<in> P} = card P"
proof -
  let ?A = "{(a, b). a < n \<and> b < m \<and> (int a, int b) \<in> P}"
  let ?h = "\<lambda>(a, b). (int a, int b)"
  have inj: "inj_on ?h ?A" by (auto simp: inj_on_def)
  have "?h ` ?A = P"
  proof
    show "?h ` ?A \<subseteq> P" by auto
    show "P \<subseteq> ?h ` ?A"
    proof
      fix p assume p: "p \<in> P"
      obtain x y where xy: "p = (x, y)" by (cases p)
      with p assms(2) have r: "0 \<le> x" "x < int n" "0 \<le> y" "y < int m" by auto
      then have "(nat x, nat y) \<in> ?A" using p xy by auto
      moreover have "?h (nat x, nat y) = p" using r xy by simp
      ultimately show "p \<in> ?h ` ?A" by (metis (no_types, lifting) image_eqI)
    qed
  qed
  then show ?thesis using card_image [OF inj] by simp
qed

lemma divmod_in_range:
  assumes "0 < columns" "0 \<le> rows" "p < nat (rows * columns)"
  shows "0 \<le> int p div columns" "int p div columns < rows"
        "0 \<le> int p mod columns" "int p mod columns < columns"
proof -
  have lt: "int p < rows * columns" using assms by linarith
  show "0 \<le> int p div columns" using assms by (simp add: pos_imp_zdiv_nonneg_iff)
  show "int p div columns < rows"
  proof (rule ccontr)
    assume "\<not> int p div columns < rows"
    then have "rows \<le> int p div columns" by simp
    then have "columns * rows \<le> columns * (int p div columns)"
      using assms(1) by (simp add: mult_left_mono)
    moreover have "int p = columns * (int p div columns) + int p mod columns" by simp
    moreover have "0 \<le> int p mod columns" using assms(1) by simp
    ultimately have "columns * rows \<le> int p" by linarith
    with lt show False by (simp add: mult.commute)
  qed
  show "0 \<le> int p mod columns" "int p mod columns < columns" using assms(1) by simp_all
qed

lemma divmod_inj:
  "inj_on (\<lambda>p. (int p div columns, int p mod columns)) A"
proof (rule inj_onI)
  fix x y assume "(int x div columns, int x mod columns) = (int y div columns, int y mod columns)"
  then have "int x div columns = int y div columns" "int x mod columns = int y mod columns" by auto
  then have "int x = int y" by (metis div_mult_mod_eq)
  then show "x = y" by simp
qed

lemma rectangular_randomized:
  assumes "1 \<le> rows" "1 \<le> columns" "0 \<le> f" "f \<le> 1" "rows * columns < 2 ^ 53"
  shows "\<exists>g rs' idxs.
           create_rectangular_array rows columns True f pv rs = Inr (g, rs')
         \<and> grid_shape (nat rows) (nat columns) g
         \<and> distinct idxs \<and> set idxs \<subseteq> {..<nat (rows * columns)}
         \<and> length idxs = nat \<lfloor>fmul (real_of_int (rows * columns)) f\<rfloor>
         \<and> (\<forall>a < nat rows. \<forall>b < nat columns.
               g ! a ! b = (if (int a, int b) \<in> (\<lambda>p. (int p div columns, int p mod columns)) ` set idxs
                            then demoted pv else Active))"
proof -
  let ?N = "nat (rows * columns)"
  have N: "real_of_int (rows * columns) = real ?N" using assms(1,2) by simp
  have k: "py_int (fmul (real_of_int (rows * columns)) f) = \<lfloor>fmul (real_of_int (rows * columns)) f\<rfloor>"
      "0 \<le> \<lfloor>fmul (real_of_int (rows * columns)) f\<rfloor>"
      "\<lfloor>fmul (real_of_int (rows * columns)) f\<rfloor> \<le> rows * columns"
    using py_int_fraction [OF assms(3,4), of ?N] assms(1,2,5) unfolding N by simp_all
  from random_choice_ok [OF k(2,3), of rs]
  obtain idxs rs' where ch: "random_choice (rows * columns) \<lfloor>fmul (real_of_int (rows * columns)) f\<rfloor> rs = Inr (idxs, rs')"
    and d: "distinct idxs" and s: "set idxs \<subseteq> {..<?N}"
    and l: "length idxs = nat \<lfloor>fmul (real_of_int (rows * columns)) f\<rfloor>" by blast
  let ?ps = "map (\<lambda>p. (int p div columns, int p mod columns)) idxs"
  have range: "\<forall>(i, j) \<in> set ?ps. 0 \<le> i \<and> i < int (nat rows) \<and> 0 \<le> j \<and> j < int (nat columns)"
  proof -
    have "0 \<le> int p div columns \<and> int p div columns < int (nat rows)
          \<and> 0 \<le> int p mod columns \<and> int p mod columns < int (nat columns)" if "p \<in> set idxs" for p
    proof -
      from that s have "p < ?N" by auto
      from divmod_in_range [OF _ _ this] assms(1,2) show ?thesis by simp
    qed
    then show ?thesis by auto
  qed
  from put_cells_result [OF grid_shape_replicate [of "nat rows" "nat columns" Active] range, of "demoted pv"]
  obtain g where g: "put_cells (demoted pv) ?ps (replicate (nat rows) (replicate (nat columns) Active)) = Inr g"
    and sh: "grid_shape (nat rows) (nat columns) g"
    and c: "\<forall>a < nat rows. \<forall>b < nat columns.
       g ! a ! b = (if (int a, int b) \<in> set ?ps then demoted pv
                    else replicate (nat rows) (replicate (nat columns) Active) ! a ! b)"
    by blast
  have "create_rectangular_array rows columns True f pv rs = Inr (g, rs')"
    using assms(1,2) ch g k(1)
    by (simp add: create_rectangular_array_def np_full_def Let_def rect_demote_put_cells)
  moreover have "\<forall>a < nat rows. \<forall>b < nat columns.
       g ! a ! b = (if (int a, int b) \<in> (\<lambda>p. (int p div columns, int p mod columns)) ` set idxs
                    then demoted pv else Active)"
    using c by simp
  ultimately show ?thesis using sh d s l by blast
qed

subsection \<open>The randomised hexagonal generator\<close>

lemma hex_positions_set:
  "set (hex_positions radius rows) =
     {(int i, y) | i y. i \<in> set rows \<and> max 0 (radius - int i) \<le> y
                       \<and> y < 2 * radius + 1 - max 0 (int i - radius)}"
  by (auto simp: hex_positions_def)

lemma hex_positions_mem:
  "(int a, int b) \<in> set (hex_positions radius rows) \<longleftrightarrow> a \<in> set rows \<and> in_hexagon radius a b"
  by (auto simp: hex_positions_set in_hexagon_def)

lemma hex_positions_distinct: "distinct rows \<Longrightarrow> distinct (hex_positions radius rows)"
proof (induction rows)
  case Nil
  then show ?case by (simp add: hex_positions_def)
next
  case (Cons i rows)
  have "distinct (map (\<lambda>j. (int i, j))
          [max 0 (radius - int i)..2 * radius + 1 - max 0 (int i - radius) - 1])"
    by (simp add: distinct_map inj_on_def)
  moreover have "distinct (hex_positions radius rows)" using Cons by simp
  moreover have "set (map (\<lambda>j. (int i, j))
          [max 0 (radius - int i)..2 * radius + 1 - max 0 (int i - radius) - 1])
        \<inter> set (hex_positions radius rows) = {}"
    using Cons.prems by (auto simp: hex_positions_set)
  ultimately show ?case by (simp add: hex_positions_Cons)
qed

lemma hex_positions_range:
  assumes "0 \<le> radius" "n = nat (2 * radius + 1)" "\<forall>i \<in> set rows. i < n"
  shows "\<forall>(x, y) \<in> set (hex_positions radius rows). 0 \<le> x \<and> x < int n \<and> 0 \<le> y \<and> y < int n"
  using assms by (auto simp: hex_positions_set)

lemma in_hexagon_column: "0 \<le> radius \<Longrightarrow> in_hexagon radius a b \<Longrightarrow> b < nat (2 * radius + 1)"
  by (auto simp: in_hexagon_def)

lemma hex_region_card:
  assumes "0 \<le> radius"
  shows "card {(a, b). a < nat (2 * radius + 1) \<and> b < nat (2 * radius + 1) \<and> in_hexagon radius a b}
         = length (hex_positions radius [0..<nat (2 * radius + 1)])"
proof -
  let ?n = "nat (2 * radius + 1)"
  let ?cps = "hex_positions radius [0..<?n]"
  have "card {(a, b). a < ?n \<and> b < ?n \<and> (int a, int b) \<in> set ?cps} = card (set ?cps)"
    by (rule card_int_pairs) (use hex_positions_range [OF assms refl, of "[0..<?n]"] in auto)
  moreover have "{(a, b). a < ?n \<and> b < ?n \<and> (int a, int b) \<in> set ?cps}
               = {(a, b). a < ?n \<and> b < ?n \<and> in_hexagon radius a b}"
    by (auto simp: hex_positions_mem)
  moreover have "card (set ?cps) = length ?cps"
    by (simp add: distinct_card hex_positions_distinct)
  ultimately show ?thesis by simp
qed

lemma hexagonal_randomized:
  assumes r: "0 \<le> radius" and f: "0 \<le> f" "f \<le> 1"
    and n: "n = nat (2 * radius + 1)" and cps: "cps = hex_positions radius [0..<n]"
    and lim: "int (length cps) < 2 ^ 53"
  shows "\<exists>g rs' idxs.
           create_hexagonal_array radius True f pv rs = Inr (g, rs')
         \<and> grid_shape n n g
         \<and> distinct idxs \<and> set idxs \<subseteq> {..<length cps}
         \<and> length idxs = nat \<lfloor>fmul (real (length cps)) f\<rfloor>
         \<and> (\<forall>a < n. \<forall>b < n.
               g ! a ! b = (if (int a, int b) \<in> nth cps ` set idxs then demoted pv
                            else if in_hexagon radius a b then Active else Empty))"
proof -
  from hex_fill_result [OF r n grid_shape_replicate [of n n Empty], of "[0..<n]" "[]"]
  obtain g0 where g0: "hex_fill radius (2 * radius + 1) [0..<n] (replicate n (replicate n Empty), [])
                = Inr (g0, cps)"
    and sh0: "grid_shape n n g0"
    and c0: "\<forall>a < n. \<forall>b < n. g0 ! a ! b = (if in_hexagon radius a b then Active else Empty)"
    unfolding cps by auto
  have k: "py_int (fmul (real (length cps)) f) = \<lfloor>fmul (real (length cps)) f\<rfloor>"
      "0 \<le> \<lfloor>fmul (real (length cps)) f\<rfloor>"
      "\<lfloor>fmul (real (length cps)) f\<rfloor> \<le> int (length cps)"
    using py_int_fraction [OF f lim] by simp_all
  from random_choice_ok [OF k(2,3), of rs]
  obtain idxs rs' where ch: "random_choice (int (length cps)) \<lfloor>fmul (real (length cps)) f\<rfloor> rs = Inr (idxs, rs')"
    and d: "distinct idxs" and s: "set idxs \<subseteq> {..<length cps}"
    and l: "length idxs = nat \<lfloor>fmul (real (length cps)) f\<rfloor>" by auto
  have inb: "\<forall>idx \<in> set idxs. idx < length cps" using s by auto
  let ?ps = "map (nth cps) idxs"
  have sub: "set ?ps \<subseteq> set cps" using inb by auto
  have range: "\<forall>(i, j) \<in> set ?ps. 0 \<le> i \<and> i < int n \<and> 0 \<le> j \<and> j < int n"
    using hex_positions_range [OF r n, of "[0..<n]"] sub unfolding cps by fastforce
  from put_cells_result [OF sh0 range, of "demoted pv"]
  obtain g where g: "put_cells (demoted pv) ?ps g0 = Inr g"
    and sh: "grid_shape n n g"
    and c: "\<forall>a < n. \<forall>b < n. g ! a ! b = (if (int a, int b) \<in> set ?ps then demoted pv else g0 ! a ! b)"
    by blast
  have "create_hexagonal_array radius True f pv rs = Inr (g, rs')"
    using r g0 ch g k(1) n
    by (simp add: create_hexagonal_array_def np_full_def Let_def hex_demote_put_cells [OF inb])
  moreover have "\<forall>a < n. \<forall>b < n.
       g ! a ! b = (if (int a, int b) \<in> nth cps ` set idxs then demoted pv
                    else if in_hexagon radius a b then Active else Empty)"
    using c c0 by simp
  ultimately show ?thesis using sh d s l by blast
qed

subsection \<open>The double loop of the circular and octagonal generators\<close>

text \<open>The lemmas cover the runs in which every cell of the shape receives the same value \<open>v\<close>:
  without randomisation (\<open>Active\<close>), and with \<open>empty_fraction \<ge> 1\<close> (the demoted value).\<close>

lemma bernoulli_value_plain: "bernoulli_value False f pv rs = (Active, rs)"
  by (simp add: bernoulli_value_def)

lemma random_rand_less_1: "fst (random_rand rs) < 1"
  by (simp add: random_rand_def next_raw_def)

lemma bernoulli_value_full: "1 \<le> f \<Longrightarrow> fst (bernoulli_value True f pv rs) = demoted pv"
  using random_rand_less_1 [of rs]
  by (auto simp: bernoulli_value_def split: prod.splits)

lemma scan_row_result:
  assumes sh: "grid_shape n n g" and i: "i < n" and js: "\<forall>j \<in> set js. j < n"
    and v: "\<And>rs. fst (bernoulli_value rnd f pv rs) = v"
  shows "\<exists>g' rs'. scan_row inside rnd f pv i js (g, rs) = Inr (g', rs')
           \<and> (\<not> rnd \<longrightarrow> rs' = rs)
           \<and> grid_shape n n g'
           \<and> (\<forall>a < n. \<forall>b < n.
                 g' ! a ! b = (if a = i \<and> b \<in> set js \<and> inside i b then v else g ! a ! b))"
  using sh js
proof (induction js arbitrary: g rs)
  case Nil
  then show ?case by simp
next
  case (Cons j js)
  from Cons.prems have j: "j < n" and rest: "\<forall>j \<in> set js. j < n" by auto
  show ?case
  proof (cases "inside i j")
    case False
    from Cons.IH [OF Cons.prems(1) rest, of rs]
    obtain g' rs' where "scan_row inside rnd f pv i js (g, rs) = Inr (g', rs')"
      "\<not> rnd \<longrightarrow> rs' = rs" "grid_shape n n g'"
      "\<forall>a < n. \<forall>b < n. g' ! a ! b = (if a = i \<and> b \<in> set js \<and> inside i b then v else g ! a ! b)"
      by blast
    then show ?thesis using False by auto
  next
    case True
    obtain w rs1 where b: "bernoulli_value rnd f pv rs = (w, rs1)"
      by (cases "bernoulli_value rnd f pv rs")
    have w: "w = v" using v [of rs] b by simp
    have rs1: "\<not> rnd \<longrightarrow> rs1 = rs" using b by (auto simp: bernoulli_value_def)
    let ?g1 = "g[i := (g ! i)[j := v]]"
    have len: "length g = n" "length (g ! i) = n"
      using Cons.prems(1) i by (auto simp: grid_shape_def)
    have g1: "grid_set g (int i) (int j) v = Inr ?g1"
      using grid_set_nat [of i g j v] len i j by simp
    have sh1: "grid_shape n n ?g1"
      using Cons.prems(1) len by (intro grid_shape_update) auto
    have c1: "?g1 ! a ! b = (if a = i \<and> b = j then v else g ! a ! b)" if "a < n" "b < n" for a b
      using that len i j by (cases "a = i"; cases "b = j") (auto simp: nth_list_update)
    from Cons.IH [OF sh1 rest, of rs1]
    obtain g' rs' where s: "scan_row inside rnd f pv i js (?g1, rs1) = Inr (g', rs')"
      and r': "\<not> rnd \<longrightarrow> rs' = rs1" and sh': "grid_shape n n g'"
      and c': "\<forall>a < n. \<forall>b < n. g' ! a ! b = (if a = i \<and> b \<in> set js \<and> inside i b then v else ?g1 ! a ! b)"
      by blast
    have "scan_row inside rnd f pv i (j # js) (g, rs) = Inr (g', rs')"
      using True b w g1 s by simp
    moreover have "\<not> rnd \<longrightarrow> rs' = rs" using r' rs1 by simp
    moreover have "\<forall>a < n. \<forall>b < n.
        g' ! a ! b = (if a = i \<and> b \<in> set (j # js) \<and> inside i b then v else g ! a ! b)"
      using c' c1 True by auto
    ultimately show ?thesis using sh' by blast
  qed
qed

lemma scan_rows_result:
  assumes n: "n = nat grid_size" and sh: "grid_shape n n g" and rows: "\<forall>i \<in> set rows. i < n"
    and v: "\<And>rs. fst (bernoulli_value rnd f pv rs) = v"
  shows "\<exists>g' rs'. scan_rows inside rnd f pv grid_size rows (g, rs) = Inr (g', rs')
           \<and> (\<not> rnd \<longrightarrow> rs' = rs)
           \<and> grid_shape n n g'
           \<and> (\<forall>a < n. \<forall>b < n.
                 g' ! a ! b = (if a \<in> set rows \<and> inside a b then v else g ! a ! b))"
  using sh rows
proof (induction rows arbitrary: g rs)
  case Nil
  then show ?case by simp
next
  case (Cons i rows)
  from Cons.prems have i: "i < n" and rest: "\<forall>i \<in> set rows. i < n" by auto
  from scan_row_result [OF Cons.prems(1) i _ v, of "[0..<n]" inside rs]
  obtain g1 rs1 where s1: "scan_row inside rnd f pv i [0..<n] (g, rs) = Inr (g1, rs1)"
    and r1: "\<not> rnd \<longrightarrow> rs1 = rs" and sh1: "grid_shape n n g1"
    and c1: "\<forall>a < n. \<forall>b < n. g1 ! a ! b = (if a = i \<and> inside i b then v else g ! a ! b)"
    by auto
  from Cons.IH [OF sh1 rest, of rs1]
  obtain g' rs' where s: "scan_rows inside rnd f pv grid_size rows (g1, rs1) = Inr (g', rs')"
    and r': "\<not> rnd \<longrightarrow> rs' = rs1" and sh': "grid_shape n n g'"
    and c': "\<forall>a < n. \<forall>b < n. g' ! a ! b = (if a \<in> set rows \<and> inside a b then v else g1 ! a ! b)"
    by blast
  have "scan_rows inside rnd f pv grid_size (i # rows) (g, rs) = Inr (g', rs')"
    using s1 s n by simp
  moreover have "\<not> rnd \<longrightarrow> rs' = rs" using r' r1 by simp
  moreover have "\<forall>a < n. \<forall>b < n.
      g' ! a ! b = (if a \<in> set (i # rows) \<and> inside a b then v else g ! a ! b)"
    using c' c1 by auto
  ultimately show ?case using sh' by blast
qed

lemma scan_grid_result:
  assumes gs: "0 \<le> grid_size" and v: "\<And>rs. fst (bernoulli_value rnd f pv rs) = v"
  shows "\<exists>g rs'. scan_rows inside rnd f pv grid_size [0..<nat grid_size]
                    (replicate (nat grid_size) (replicate (nat grid_size) Empty), rs) = Inr (g, rs')
           \<and> (\<not> rnd \<longrightarrow> rs' = rs)
           \<and> grid_shape (nat grid_size) (nat grid_size) g
           \<and> (\<forall>a < nat grid_size. \<forall>b < nat grid_size.
                 g ! a ! b = (if inside a b then v else Empty))"
proof -
  let ?n = "nat grid_size"
  from scan_rows_result [OF refl grid_shape_replicate [of ?n ?n Empty] _ v, of "[0..<?n]" inside rs]
  obtain g rs' where "scan_rows inside rnd f pv grid_size [0..<?n] (replicate ?n (replicate ?n Empty), rs) = Inr (g, rs')"
    "\<not> rnd \<longrightarrow> rs' = rs" "grid_shape ?n ?n g"
    "\<forall>a < ?n. \<forall>b < ?n. g ! a ! b = (if a \<in> set [0..<?n] \<and> inside a b then v
                                       else replicate ?n (replicate ?n Empty) ! a ! b)"
    by auto
  then show ?thesis by auto
qed

lemma circular_result:
  assumes gs: "0 \<le> grid_size" and v: "\<And>rs. fst (bernoulli_value rnd f pv rs) = v"
  shows "\<exists>g rs'. create_circular_array grid_size radius rnd f pv rs = Inr (g, rs')
           \<and> (\<not> rnd \<longrightarrow> rs' = rs)
           \<and> grid_shape (nat grid_size) (nat grid_size) g
           \<and> (\<forall>a < nat grid_size. \<forall>b < nat grid_size.
                 g ! a ! b = (if in_circle (grid_size div 2) radius a b then v else Empty))"
  using scan_grid_result [OF gs v, of "in_circle (grid_size div 2) radius" rs] gs
  by (simp add: create_circular_array_def np_full_def Let_def)

lemma octagonal_result:
  assumes gs: "0 \<le> grid_size" and v: "\<And>rs. fst (bernoulli_value rnd f pv rs) = v"
  shows "\<exists>g rs'. create_octagonal_array grid_size side_length rnd f pv rs = Inr (g, rs')
           \<and> (\<not> rnd \<longrightarrow> rs' = rs)
           \<and> grid_shape (nat grid_size) (nat grid_size) g
           \<and> (\<forall>a < nat grid_size. \<forall>b < nat grid_size.
                 g ! a ! b = (if in_octagon (grid_size div 2) side_length a b then v else Empty))"
  using scan_grid_result [OF gs v, of "in_octagon (grid_size div 2) side_length" rs] gs
  by (simp add: create_octagonal_array_def np_full_def Let_def)

subsection \<open>The first point of the sunflower spiral\<close>


lemma filter_replicate_Empty: "filter (\<lambda>c. c \<noteq> Empty) (replicate n Empty) = []"
  by (induction n) auto

lemma concat_replicate_Empty:
  "filter (\<lambda>c. c \<noteq> Empty) (concat (replicate m (replicate n Empty))) = []"
  by (induction m) (auto simp: filter_replicate_Empty)

lemma non_empty_count_single:
  assumes "c < n"
  shows "non_empty_count ((replicate n (replicate n Empty))[c := (replicate n Empty)[c := v]])
         = (if v = Empty then 0 else 1)"
proof -
  let ?row = "replicate n Empty"
  have split: "(replicate n ?row)[c := ?row[c := v]]
      = replicate c ?row @ ?row[c := v] # replicate (n - Suc c) ?row"
    using assms by (simp add: upd_conv_take_nth_drop)
  have row: "?row[c := v] = replicate c Empty @ v # replicate (n - Suc c) Empty"
    using assms by (simp add: upd_conv_take_nth_drop)
  show ?thesis
    unfolding non_empty_count_def split
    by (simp add: concat_replicate_Empty row filter_replicate_Empty)
qed

lemma sunflower_result:
  assumes "1 \<le> n_points" "1 \<le> grid_size"
  shows "create_sunflower_array n_points radius grid_size randomize empty_fraction passive rs =
     (case sunflower_value randomize empty_fraction passive rs of (v, rs') \<Rightarrow>
        Inr (Some ((replicate (nat grid_size) (replicate (nat grid_size) Empty))
                     [nat (grid_size div 2) := (replicate (nat grid_size) Empty)[nat (grid_size div 2) := v]]),
             rs'))"
proof -
  have r: "[0..<nat n_points] = 0 # [1..<nat n_points]"
    using assms(1) by (simp add: upt_conv_Cons)
  have c: "0 \<le> grid_size div 2" "grid_size div 2 < grid_size"
    using assms(2) by auto
  have gs: "grid_set (replicate (nat grid_size) (replicate (nat grid_size) Empty))
              (grid_size div 2) (grid_size div 2) v
            = Inr ((replicate (nat grid_size) (replicate (nat grid_size) Empty))
                     [nat (grid_size div 2) := (replicate (nat grid_size) Empty)[nat (grid_size div 2) := v]])" for v
    using grid_set_nat [of "nat (grid_size div 2)" "replicate (nat grid_size) (replicate (nat grid_size) Empty)"
        "nat (grid_size div 2)" v] c by simp
  show ?thesis
    using assms c
    by (simp add: create_sunflower_array_def np_full_def r py_round_of_int gs Let_def split: prod.splits)
qed


lemma sunflower_value_cases:
  "sunflower_value randomize empty_fraction passive rs = (v, rs') \<Longrightarrow> v = Active \<or> v = Passive"
  by (auto simp: sunflower_value_def split: prod.splits if_splits)

lemma single_cell_grid_row:
  assumes "row \<in> set ((replicate n (replicate n Empty))[c := (replicate n Empty)[c := v]])"
  shows "length row = n" and "x \<in> set row \<Longrightarrow> x = v \<or> x = Empty"
proof -
  let ?g = "(replicate n (replicate n Empty))[c := (replicate n Empty)[c := v]]"
  from assms obtain i where i: "i < n" "row = ?g ! i"
    by (auto simp: in_set_conv_nth)
  then have row: "row = (if i = c then (replicate n Empty)[c := v] else replicate n Empty)"
    by (cases "i = c") auto
  show "length row = n" using row by simp
  assume "x \<in> set row"
  then obtain j where j: "j < n" "x = row ! j"
    using row by (auto simp: in_set_conv_nth split: if_splits)
  then show "x = v \<or> x = Empty"
    using row by (cases "j = c") (auto split: if_splits)
qed

subsection \<open>Some values in double precision\<close>

lemma fsqrt_0: "fsqrt 0 = 0"
  by (simp add: fsqrt_def round_double_def)

lemma fsqrt_ge_1:
  assumes "1 \<le> d"
  shows "1 \<le> fsqrt (real_of_int d)"
proof -
  have "real_of_int 1 \<le> sqrt (real_of_int d)" using assms by simp
  then have "real_of_int 1 \<le> round_double (sqrt (real_of_int d))"
    by (rule round_double_ge_int) simp_all
  then show ?thesis by (simp add: fsqrt_def)
qed

lemma fsqrt_1: "fsqrt 1 = 1"
  using round_double_of_int [of 1] by (simp add: fsqrt_def)

lemma fsqrt_2: "fsqrt 2 = 6369051672525773 / 2 ^ 52"
proof -
  have lo: "(6369051672525773 - 1 / 2) / 2 ^ 52 < sqrt 2"
    by (rule real_less_rsqrt) (simp add: power2_eq_square)
  have hi: "sqrt 2 < (6369051672525773 + 1 / 2) / 2 ^ 52"
    by (rule real_less_lsqrt) (simp_all add: power2_eq_square)
  have "round_double (sqrt 2) = real_of_int 6369051672525773 * 2 powi (0 - 52)"
  proof (rule round_double_value)
    show "2 powi 0 \<le> sqrt 2" by simp
    show "sqrt 2 < 2 powi (0 + 1)" using hi by simp
    show "real_of_int 6369051672525773 - 1 / 2 < sqrt 2 / 2 powi (0 - 52)"
      using lo by (simp add: field_simps)
    show "sqrt 2 / 2 powi (0 - 52) < real_of_int 6369051672525773 + 1 / 2"
      using hi by (simp add: field_simps)
  qed simp
  then show ?thesis by (simp add: fsqrt_def)
qed

lemma fsqrt_13: "fsqrt 13 = 8118979690322419 / 2 ^ 51"
proof -
  have lo: "(8118979690322419 - 1 / 2) / 2 ^ 51 < sqrt 13"
    by (rule real_less_rsqrt) (simp add: power2_eq_square)
  have hi: "sqrt 13 < (8118979690322419 + 1 / 2) / 2 ^ 51"
    by (rule real_less_lsqrt) (simp_all add: power2_eq_square)
  have "round_double (sqrt 13) = real_of_int 8118979690322419 * 2 powi (1 - 52)"
  proof (rule round_double_value)
    show "2 powi 1 \<le> sqrt 13" using lo by simp
    show "sqrt 13 < 2 powi (1 + 1)" using hi by simp
    show "real_of_int 8118979690322419 - 1 / 2 < sqrt 13 / 2 powi (1 - 52)"
      using lo by (simp add: field_simps)
    show "sqrt 13 / 2 powi (1 - 52) < real_of_int 8118979690322419 + 1 / 2"
      using hi by (simp add: field_simps)
  qed simp
  then show ?thesis by (simp add: fsqrt_def)
qed

lemma sqrt_13_above: "8118979690322419 / 2 ^ 51 < sqrt 13"
  by (rule real_less_rsqrt) (simp add: power2_eq_square)

lemma round_double_exact:
  assumes "2 powi E \<le> real_of_int m * 2 powi (E - 52)"
    "real_of_int m * 2 powi (E - 52) < 2 powi (E + 1)" "- 1022 \<le> E"
  shows "round_double (real_of_int m * 2 powi (E - 52)) = real_of_int m * 2 powi (E - 52)"
proof -
  have "real_of_int m * 2 powi (E - 52) / 2 powi (E - 52) = real_of_int m" by simp
  then show ?thesis
    using round_double_eval [OF assms] by (simp add: py_round_of_int)
qed

lemma fdiv_sqrt2_2: "fdiv (6369051672525773 / 2 ^ 52) 2 = 6369051672525773 / 2 ^ 53"
  using round_double_exact [of "- 1" 6369051672525773] by (simp add: fdiv_def)

lemma py_round_tie_even: "even m \<Longrightarrow> py_round (real_of_int m + 1 / 2) = m"
proof -
  assume "even m"
  have "\<lfloor>real_of_int m + 1 / 2\<rfloor> = m" by linarith
  then show ?thesis using \<open>even m\<close> by (simp add: py_round_def Let_def)
qed

lemma fadd_1_half_sqrt2: "fadd 1 (6369051672525773 / 2 ^ 53) = 7688125463633382 / 2 ^ 52"
proof -
  let ?x = "1 + 6369051672525773 / 2 ^ 53 :: real"
  have t: "?x / 2 powi (0 - 52) = real_of_int 7688125463633382 + 1 / 2" by simp
  have "round_double ?x = real_of_int (py_round (?x / 2 powi (0 - 52))) * 2 powi (0 - 52)"
    by (rule round_double_eval) simp_all
  also have "py_round (?x / 2 powi (0 - 52)) = 7688125463633382"
    unfolding t by (rule py_round_tie_even) simp
  finally show ?thesis by (simp add: fadd_def)
qed

lemma fmul_side_sqrt2:
  "fmul (6369051672525772 / 2 ^ 53) (6369051672525773 / 2 ^ 52) = 1"
proof -
  have "round_double (6369051672525772 / 2 ^ 53 * (6369051672525773 / 2 ^ 52))
        = real_of_int 9007199254740992 * 2 powi (- 1 - 52)"
    by (rule round_double_value) simp_all
  then show ?thesis by (simp add: fmul_def)
qed

lemma fmul_side_max_dist:
  "fmul (6369051672525772 / 2 ^ 53) (7688125463633382 / 2 ^ 52) = 5436325649948134 / 2 ^ 52"
proof -
  have "round_double (6369051672525772 / 2 ^ 53 * (7688125463633382 / 2 ^ 52))
        = real_of_int 5436325649948134 * 2 powi (0 - 52)"
    by (rule round_double_value) simp_all
  then show ?thesis by (simp add: fmul_def)
qed

lemma fmul_1_sqrt2: "fmul 1 (6369051672525773 / 2 ^ 52) = 6369051672525773 / 2 ^ 52"
  using round_double_exact [of 0 6369051672525773] by (simp add: fmul_def)

lemma fmul_1_max_dist: "fmul 1 (7688125463633382 / 2 ^ 52) = 7688125463633382 / 2 ^ 52"
  using round_double_exact [of 0 7688125463633382] by (simp add: fmul_def)

lemma octagon_bounds_side_1:
  "fmul 1 (fadd 1 (fdiv (fsqrt 2) 2)) = 7688125463633382 / 2 ^ 52"
  "fmul 1 (fsqrt 2) = 6369051672525773 / 2 ^ 52"
  by (simp_all only: fsqrt_2 fdiv_sqrt2_2 fadd_1_half_sqrt2 fmul_1_max_dist fmul_1_sqrt2)

lemma octagon_bounds_side_below:
  "fmul (6369051672525772 / 2 ^ 53) (fadd 1 (fdiv (fsqrt 2) 2)) = 5436325649948134 / 2 ^ 52"
  "fmul (6369051672525772 / 2 ^ 53) (fsqrt 2) = 1"
  by (simp_all only: fsqrt_2 fdiv_sqrt2_2 fadd_1_half_sqrt2 fmul_side_max_dist fmul_side_sqrt2)

lemma in_circle_radius_0: "in_circle 2 0 i j \<longleftrightarrow> i = 2 \<and> j = 2"
proof -
  let ?d = "(int i - 2)\<^sup>2 + (int j - 2)\<^sup>2"
  have d0: "0 \<le> ?d" by simp
  show ?thesis
  proof (cases "?d = 0")
    case True
    then have "int i - 2 = 0 \<and> int j - 2 = 0" by (simp only: sum_power2_eq_zero_iff)
    moreover have "fsqrt (real_of_int ?d) \<le> 0" using True by (simp only: of_int_0 fsqrt_0)
    ultimately show ?thesis unfolding in_circle_def by auto
  next
    case False
    then have "1 \<le> ?d" using d0 by linarith
    then have "1 \<le> fsqrt (real_of_int ?d)" by (rule fsqrt_ge_1)
    then have "\<not> in_circle 2 0 i j" unfolding in_circle_def by linarith
    moreover have "\<not> (i = 2 \<and> j = 2)" using False by auto
    ultimately show ?thesis by simp
  qed
qed


section \<open>The sunflower generator\<close>

text \<open>
  Claim C2. The sunflower generator returns from inside the first iteration of its loop:
  for every \<open>n_points \<ge> 1\<close> and \<open>grid_size \<ge> 1\<close>, and every radius, option and state of
  the random source, it returns a \<open>grid_size \<times> grid_size\<close> grid with at most one cell
  that is not \<open>Empty\<close>.
\<close>

theorem sunflower_at_most_one_cell:
  assumes "1 \<le> n_points" and "1 \<le> grid_size"
  shows "\<exists>g rs'. create_sunflower_array n_points radius grid_size randomize empty_fraction passive rs
                  = Inr (Some g, rs')
           \<and> length g = nat grid_size
           \<and> (\<forall>row \<in> set g. length row = nat grid_size)
           \<and> non_empty_count g \<le> 1"
proof -
  obtain v rs' where v: "sunflower_value randomize empty_fraction passive rs = (v, rs')"
    by (cases "sunflower_value randomize empty_fraction passive rs")
  let ?n = "nat grid_size" and ?c = "nat (grid_size div 2)"
  let ?g = "(replicate ?n (replicate ?n Empty))[?c := (replicate ?n Empty)[?c := v]]"
  have c: "?c < ?n" using assms(2) by auto
  have "create_sunflower_array n_points radius grid_size randomize empty_fraction passive rs
          = Inr (Some ?g, rs')"
    using sunflower_result [OF assms] v by simp
  moreover have "length ?g = ?n" by simp
  moreover have "\<forall>row \<in> set ?g. length row = ?n"
    using single_cell_grid_row(1) by blast
  moreover have "non_empty_count ?g \<le> 1"
    by (simp add: non_empty_count_single [OF c])
  ultimately show ?thesis by blast
qed

theorem sunflower_at_most_one_cell_witness:
  "\<exists>g rs'. create_sunflower_array 7 3 4 True (1 / 2) True \<lparr>draws = (\<lambda>k. k), pos = 0\<rparr>
              = Inr (Some g, rs')
         \<and> length g = 4 \<and> non_empty_count g \<le> 1"
  using sunflower_at_most_one_cell
    [of 7 4 3 True "1 / 2" True "\<lparr>draws = (\<lambda>k. k), pos = 0\<rparr>"]
  by auto

text \<open>
  Claim C10. For every \<open>n_points \<ge> 1\<close> and \<open>grid_size \<ge> 1\<close> the first spiral point has
  \<open>r = 0\<close> and rounds to the centre \<open>(grid_size div 2, grid_size div 2)\<close>, which is inside
  the grid: the centre cell is not \<open>Empty\<close>, every other cell is \<open>Empty\<close>, and the grid
  holds exactly one cell that is not \<open>Empty\<close>.
\<close>

theorem sunflower_single_center_cell:
  assumes "1 \<le> n_points" and "1 \<le> grid_size"
  shows "\<exists>g rs'. create_sunflower_array n_points radius grid_size randomize empty_fraction passive rs
                  = Inr (Some g, rs')
           \<and> g ! nat (grid_size div 2) ! nat (grid_size div 2) \<noteq> Empty
           \<and> (\<forall>i < nat grid_size. \<forall>j < nat grid_size.
                 (i, j) \<noteq> (nat (grid_size div 2), nat (grid_size div 2)) \<longrightarrow> g ! i ! j = Empty)
           \<and> non_empty_count g = 1"
proof -
  obtain v rs' where v: "sunflower_value randomize empty_fraction passive rs = (v, rs')"
    by (cases "sunflower_value randomize empty_fraction passive rs")
  have vne: "v \<noteq> Empty"
    using sunflower_value_cases [OF v] by auto
  let ?n = "nat grid_size" and ?c = "nat (grid_size div 2)"
  let ?g = "(replicate ?n (replicate ?n Empty))[?c := (replicate ?n Empty)[?c := v]]"
  have c: "?c < ?n" using assms(2) by auto
  have "create_sunflower_array n_points radius grid_size randomize empty_fraction passive rs
          = Inr (Some ?g, rs')"
    using sunflower_result [OF assms] v by simp
  moreover have "?g ! ?c ! ?c \<noteq> Empty" using c vne by simp
  moreover have "\<forall>i < ?n. \<forall>j < ?n. (i, j) \<noteq> (?c, ?c) \<longrightarrow> ?g ! i ! j = Empty"
    using c by (auto simp: nth_list_update)
  moreover have "non_empty_count ?g = 1"
    using vne by (simp add: non_empty_count_single [OF c])
  ultimately show ?thesis by blast
qed

theorem sunflower_single_center_cell_witness:
  "\<exists>g rs'. create_sunflower_array 7 3 4 False 0 False \<lparr>draws = (\<lambda>k. k), pos = 0\<rparr>
              = Inr (Some g, rs')
         \<and> g ! 2 ! 2 \<noteq> Empty \<and> g ! 0 ! 3 = Empty \<and> non_empty_count g = 1"
  using sunflower_single_center_cell
    [of 7 4 3 False 0 False "\<lparr>draws = (\<lambda>k. k), pos = 0\<rparr>"]
  by auto

text \<open>
  Claim C7. In the sunflower generator the placed cell is \<open>Passive\<close> exactly when
  \<open>randomize\<close> is set, the draw is below \<open>empty_fraction\<close> and \<open>passive\<close> is set; in every
  other case it is \<open>Active\<close>. With \<open>passive\<close> unset every cell of the grid is \<open>Active\<close> or
  \<open>Empty\<close>, whatever the draw: no cell is demoted.
\<close>

theorem sunflower_passive_only_with_flag:
  assumes "1 \<le> n_points" and "1 \<le> grid_size"
  shows "\<exists>g rs'. create_sunflower_array n_points radius grid_size randomize empty_fraction passive rs
                  = Inr (Some g, rs')
           \<and> g ! nat (grid_size div 2) ! nat (grid_size div 2)
               = (if randomize \<and> fst (random_rand rs) < empty_fraction \<and> passive
                  then Passive else Active)
           \<and> (\<not> passive \<longrightarrow> (\<forall>row \<in> set g. \<forall>x \<in> set row. x = Active \<or> x = Empty))"
proof -
  obtain v rs' where v: "sunflower_value randomize empty_fraction passive rs = (v, rs')"
    by (cases "sunflower_value randomize empty_fraction passive rs")
  have vv: "v = (if randomize \<and> fst (random_rand rs) < empty_fraction \<and> passive
                  then Passive else Active)"
    using v by (auto simp: sunflower_value_def split: prod.splits if_splits)
  let ?n = "nat grid_size" and ?c = "nat (grid_size div 2)"
  let ?g = "(replicate ?n (replicate ?n Empty))[?c := (replicate ?n Empty)[?c := v]]"
  have c: "?c < ?n" using assms(2) by auto
  have "create_sunflower_array n_points radius grid_size randomize empty_fraction passive rs
          = Inr (Some ?g, rs')"
    using sunflower_result [OF assms] v by simp
  moreover have "?g ! ?c ! ?c = (if randomize \<and> fst (random_rand rs) < empty_fraction \<and> passive
                  then Passive else Active)"
    using c vv by simp
  moreover have "\<not> passive \<longrightarrow> (\<forall>row \<in> set ?g. \<forall>x \<in> set row. x = Active \<or> x = Empty)"
  proof (intro impI ballI)
    fix row x assume np: "\<not> passive" and row: "row \<in> set ?g" and x: "x \<in> set row"
    from np vv have "v = Active" by simp
    with single_cell_grid_row(2) [OF row x] show "x = Active \<or> x = Empty" by simp
  qed
  ultimately show ?thesis by blast
qed

theorem sunflower_passive_only_with_flag_witness:
  "\<exists>g rs'. create_sunflower_array 7 3 4 True 1 True \<lparr>draws = (\<lambda>k. k), pos = 0\<rparr>
              = Inr (Some g, rs')
         \<and> g ! 2 ! 2 = Passive"
  using sunflower_passive_only_with_flag
    [of 7 4 3 True 1 True "\<lparr>draws = (\<lambda>k. k), pos = 0\<rparr>"]
  by (auto simp: random_rand_def next_raw_def)

section \<open>The hexagonal generator without randomisation\<close>

text \<open>
  Claim C4. For every \<open>radius \<ge> 1\<close> the hexagonal generator without randomisation returns
  a square grid of side \<open>2 * radius + 1\<close> in which row \<open>i\<close> is \<open>Active\<close> exactly in the
  columns \<open>[max 0 (radius - i), size - max 0 (i - radius))\<close> and \<open>Empty\<close> elsewhere; the
  cell \<open>(radius, radius)\<close> is \<open>Active\<close>. The random source is returned as it was.
\<close>

theorem hexagonal_rows:
  assumes "1 \<le> radius"
  shows "\<exists>g. create_hexagonal_array radius False empty_fraction passive_flag rs = Inr (g, rs)
           \<and> length g = nat (2 * radius + 1)
           \<and> (\<forall>i < nat (2 * radius + 1).
                 length (g ! i) = nat (2 * radius + 1)
                 \<and> (\<forall>j < nat (2 * radius + 1).
                       g ! i ! j =
                         (if max 0 (radius - int i) \<le> int j
                             \<and> int j < 2 * radius + 1 - max 0 (int i - radius)
                          then Active else Empty)))
           \<and> g ! nat radius ! nat radius = Active"
proof -
  let ?n = "nat (2 * radius + 1)"
  have r: "0 \<le> radius" using assms by simp
  from hexagonal_plain [OF r, of empty_fraction passive_flag rs]
  obtain g where g: "create_hexagonal_array radius False empty_fraction passive_flag rs = Inr (g, rs)"
    and sh: "grid_shape ?n ?n g"
    and c: "\<forall>a < ?n. \<forall>b < ?n. g ! a ! b = (if in_hexagon radius a b then Active else Empty)"
    by blast
  have "nat radius < ?n" using r by simp
  moreover have "in_hexagon radius (nat radius) (nat radius)"
    using r by (simp add: in_hexagon_def)
  ultimately have apex: "g ! nat radius ! nat radius = Active" using c by simp
  have "\<forall>i < ?n. length (g ! i) = ?n
          \<and> (\<forall>j < ?n. g ! i ! j =
                 (if max 0 (radius - int i) \<le> int j \<and> int j < 2 * radius + 1 - max 0 (int i - radius)
                  then Active else Empty))"
    using sh c by (simp add: grid_shape_def in_hexagon_def)
  moreover have "length g = ?n" using sh by (simp add: grid_shape_def)
  ultimately show ?thesis using g apex by blast
qed

theorem hexagonal_rows_witness:
  "\<exists>g. create_hexagonal_array 1 False (1 / 10) False \<lparr>draws = (\<lambda>k. k), pos = 0\<rparr>
          = Inr (g, \<lparr>draws = (\<lambda>k. k), pos = 0\<rparr>)
       \<and> length g = 3 \<and> g ! 0 ! 0 = Empty \<and> g ! 0 ! 1 = Active \<and> g ! 1 ! 1 = Active
       \<and> g ! 2 ! 2 = Empty"
  using hexagonal_rows [of 1 "1 / 10" False "\<lparr>draws = (\<lambda>k. k), pos = 0\<rparr>"]
  by (auto simp: numeral_3_eq_3)

section \<open>The circular and octagonal generators without randomisation\<close>

text \<open>
  Claim C5 says that a cell is \<open>Active\<close> if and only if its Euclidean distance to the centre
  is at most \<open>radius\<close>. The generator compares the square root as \<^verbatim>\<open>np.sqrt\<close> returns it,
  rounded to a double: with \<open>grid_size = 9\<close> and the radius \<open>8118979690322419 / 2^51\<close>, the
  double nearest to \<open>sqrt 13\<close> and below it, cell \<open>(1, 2)\<close> at squared distance 13 is \<open>Active\<close>
  although its distance exceeds the radius.
\<close>

theorem circular_rounded_root_counterexample:
  "\<exists>g. create_circular_array 9 (8118979690322419 / 2 ^ 51) False 0 False \<lparr>draws = (\<lambda>k. k), pos = 0\<rparr>
          = Inr (g, \<lparr>draws = (\<lambda>k. k), pos = 0\<rparr>)
       \<and> g ! 1 ! 2 = Active
       \<and> 8118979690322419 / 2 ^ 51 < sqrt (real_of_int ((int 1 - 9 div 2)\<^sup>2 + (int 2 - 9 div 2)\<^sup>2))"
proof -
  from circular_result [of 9 False 0 False Active "8118979690322419 / 2 ^ 51" "\<lparr>draws = (\<lambda>k. k), pos = 0\<rparr>"]
  obtain g where g: "create_circular_array 9 (8118979690322419 / 2 ^ 51) False 0 False \<lparr>draws = (\<lambda>k. k), pos = 0\<rparr>
          = Inr (g, \<lparr>draws = (\<lambda>k. k), pos = 0\<rparr>)"
    and c: "\<forall>a < nat 9. \<forall>b < nat 9.
       g ! a ! b = (if in_circle (9 div 2) (8118979690322419 / 2 ^ 51) a b then Active else Empty)"
    by (auto simp: bernoulli_value_plain)
  have "(int 1 - 9 div 2)\<^sup>2 + (int 2 - 9 div 2)\<^sup>2 = (13::int)" by simp
  then have "in_circle (9 div 2) (8118979690322419 / 2 ^ 51) 1 2"
    unfolding in_circle_def by (simp only: of_int_numeral fsqrt_13 order_refl)
  then have "g ! 1 ! 2 = Active" using c by simp
  moreover have "8118979690322419 / 2 ^ 51 < sqrt (real_of_int ((int 1 - 9 div 2)\<^sup>2 + (int 2 - 9 div 2)\<^sup>2))"
    using sqrt_13_above by simp
  ultimately show ?thesis using g by blast
qed

text \<open>
  Claim C5, amended. For every \<open>grid_size \<ge> 1\<close> and \<open>radius \<ge> 0\<close> the circular generator
  without randomisation returns a \<open>grid_size \<times> grid_size\<close> grid in which cell \<open>(i, j)\<close> is
  \<open>Active\<close> if the square root of its squared distance to
  \<open>(grid_size div 2, grid_size div 2)\<close>, rounded to double precision, is at most \<open>radius\<close>,
  and \<open>Empty\<close> otherwise. With \<open>radius = 0\<close> and \<open>grid_size = 5\<close> only cell \<open>(2, 2)\<close> is
  \<open>Active\<close>.
\<close>

theorem circular_disc:
  assumes "1 \<le> grid_size" and "0 \<le> radius"
  shows "(\<exists>g. create_circular_array grid_size radius False empty_fraction passive_flag rs = Inr (g, rs)
            \<and> length g = nat grid_size
            \<and> (\<forall>i < nat grid_size.
                  length (g ! i) = nat grid_size
                  \<and> (\<forall>j < nat grid_size.
                        g ! i ! j =
                          (if round_double (sqrt (real_of_int ((int i - grid_size div 2)\<^sup>2
                                                               + (int j - grid_size div 2)\<^sup>2)))
                                \<le> radius
                           then Active else Empty))))
       \<and> create_circular_array 5 0 False empty_fraction passive_flag rs
           = Inr ([[Empty, Empty, Empty, Empty, Empty],
                   [Empty, Empty, Empty, Empty, Empty],
                   [Empty, Empty, Active, Empty, Empty],
                   [Empty, Empty, Empty, Empty, Empty],
                   [Empty, Empty, Empty, Empty, Empty]], rs)"
proof
  let ?n = "nat grid_size"
  have gs: "0 \<le> grid_size" using assms(1) by simp
  from circular_result [OF gs, of False empty_fraction passive_flag Active radius rs]
  obtain g rs' where g: "create_circular_array grid_size radius False empty_fraction passive_flag rs = Inr (g, rs')"
    and rs': "rs' = rs" and sh: "grid_shape ?n ?n g"
    and c: "\<forall>a < ?n. \<forall>b < ?n. g ! a ! b = (if in_circle (grid_size div 2) radius a b then Active else Empty)"
    by (auto simp: bernoulli_value_plain)
  have "\<forall>i < ?n. length (g ! i) = ?n
          \<and> (\<forall>j < ?n. g ! i ! j =
                 (if round_double (sqrt (real_of_int ((int i - grid_size div 2)\<^sup>2
                                                      + (int j - grid_size div 2)\<^sup>2))) \<le> radius
                  then Active else Empty))"
    using sh c unfolding grid_shape_def in_circle_def fsqrt_def by simp
  moreover have "length g = ?n" using sh by (simp add: grid_shape_def)
  ultimately show "\<exists>g. create_circular_array grid_size radius False empty_fraction passive_flag rs = Inr (g, rs)
            \<and> length g = nat grid_size
            \<and> (\<forall>i < nat grid_size.
                  length (g ! i) = nat grid_size
                  \<and> (\<forall>j < nat grid_size.
                        g ! i ! j =
                          (if round_double (sqrt (real_of_int ((int i - grid_size div 2)\<^sup>2
                                                               + (int j - grid_size div 2)\<^sup>2)))
                                \<le> radius
                           then Active else Empty)))"
    using g rs' by blast
next
  have five: "[0..<5] = [0, 1, 2, 3, 4]" by (simp add: upt_rec)
  have rep: "replicate 5 x = [x, x, x, x, x]" for x :: "'b"
    by (simp add: eval_nat_numeral)
  show "create_circular_array 5 0 False empty_fraction passive_flag rs
           = Inr ([[Empty, Empty, Empty, Empty, Empty],
                   [Empty, Empty, Empty, Empty, Empty],
                   [Empty, Empty, Active, Empty, Empty],
                   [Empty, Empty, Empty, Empty, Empty],
                   [Empty, Empty, Empty, Empty, Empty]], rs)"
    by (simp add: create_circular_array_def np_full_def five rep in_circle_radius_0
        bernoulli_value_plain grid_set_def np_index_def)
qed

theorem circular_disc_witness:
  "\<exists>g. create_circular_array 3 1 False (1 / 10) False \<lparr>draws = (\<lambda>k. k), pos = 0\<rparr>
          = Inr (g, \<lparr>draws = (\<lambda>k. k), pos = 0\<rparr>)
       \<and> length g = 3 \<and> g ! 1 ! 1 = Active \<and> g ! 0 ! 1 = Active \<and> g ! 0 ! 0 = Empty"
proof -
  have r: "round_double 0 = 0" "round_double 1 = 1"
    "round_double (sqrt 2) = 6369051672525773 / 2 ^ 52"
    using fsqrt_0 fsqrt_1 fsqrt_2 by (simp_all add: fsqrt_def)
  show ?thesis
    using circular_disc [of 3 1 "1 / 10" False "\<lparr>draws = (\<lambda>k. k), pos = 0\<rparr>"]
    by (auto simp: numeral_3_eq_3 r)
qed

text \<open>
  Claim C6 states the two bounds of the octagon with exact products. The generator computes
  them in double precision: for \<open>side_length = 6369051672525772 / 2^53\<close> (the double below
  \<open>sqrt 2 / 2\<close>) the product with the double \<open>sqrt 2\<close> rounds to 1, so in a 3 by 3 grid cell
  \<open>(0, 1)\<close> is \<open>Active\<close> although \<open>side_length * sqrt 2 < 1\<close>.
\<close>

theorem octagonal_rounded_product_counterexample:
  "\<exists>g. create_octagonal_array 3 (6369051672525772 / 2 ^ 53) False 0 False \<lparr>draws = (\<lambda>k. k), pos = 0\<rparr>
          = Inr (g, \<lparr>draws = (\<lambda>k. k), pos = 0\<rparr>)
       \<and> g ! 0 ! 1 = Active
       \<and> 6369051672525772 / 2 ^ 53 * sqrt 2
           < real_of_int (max \<bar>int 0 - 3 div 2\<bar> \<bar>int 1 - 3 div 2\<bar>)"
proof -
  from octagonal_result [of 3 False 0 False Active "6369051672525772 / 2 ^ 53" "\<lparr>draws = (\<lambda>k. k), pos = 0\<rparr>"]
  obtain g where g: "create_octagonal_array 3 (6369051672525772 / 2 ^ 53) False 0 False \<lparr>draws = (\<lambda>k. k), pos = 0\<rparr>
          = Inr (g, \<lparr>draws = (\<lambda>k. k), pos = 0\<rparr>)"
    and c: "\<forall>a < nat 3. \<forall>b < nat 3.
       g ! a ! b = (if in_octagon (3 div 2) (6369051672525772 / 2 ^ 53) a b then Active else Empty)"
    by (auto simp: bernoulli_value_plain)
  have "in_octagon (3 div 2) (6369051672525772 / 2 ^ 53) 0 1"
    unfolding in_octagon_def Let_def octagon_bounds_side_below by simp
  then have "g ! 0 ! 1 = Active" using c by simp
  moreover have "sqrt 2 < 9007199254740992 / 6369051672525772"
    by (rule real_less_lsqrt) (simp_all add: power2_eq_square)
  then have "6369051672525772 / 2 ^ 53 * sqrt 2
           < real_of_int (max \<bar>int 0 - 3 div 2\<bar> \<bar>int 1 - 3 div 2\<bar>)"
    by (simp add: field_simps)
  ultimately show ?thesis using g by blast
qed

text \<open>
  Claim C6, amended. For every \<open>grid_size \<ge> 1\<close> and \<open>side_length \<ge> 0\<close> the octagonal generator
  without randomisation marks cell \<open>(i, j)\<close> \<open>Active\<close> if both
  \<open>|i - center| + |j - center| \<le> side_length * (1 + sqrt 2 / 2)\<close> and
  \<open>max |i - center| |j - center| \<le> side_length * sqrt 2\<close> hold with the right-hand sides
  computed in double precision (the root, the quotient, the sum and the products each rounded
  to the nearest double), where \<open>center = grid_size div 2\<close>, and \<open>Empty\<close> otherwise.
\<close>

theorem octagonal_region:
  assumes "1 \<le> grid_size" and "0 \<le> side_length"
  shows "\<exists>g. create_octagonal_array grid_size side_length False empty_fraction passive_flag rs = Inr (g, rs)
            \<and> length g = nat grid_size
            \<and> (\<forall>i < nat grid_size.
                  length (g ! i) = nat grid_size
                  \<and> (\<forall>j < nat grid_size.
                        g ! i ! j =
                          (if real_of_int (\<bar>int i - grid_size div 2\<bar> + \<bar>int j - grid_size div 2\<bar>)
                                \<le> fmul side_length (fadd 1 (fdiv (fsqrt 2) 2))
                              \<and> real_of_int (max \<bar>int i - grid_size div 2\<bar> \<bar>int j - grid_size div 2\<bar>)
                                \<le> fmul side_length (fsqrt 2)
                           then Active else Empty)))"
proof -
  let ?n = "nat grid_size"
  have gs: "0 \<le> grid_size" using assms(1) by simp
  from octagonal_result [OF gs, of False empty_fraction passive_flag Active side_length rs]
  obtain g rs' where g: "create_octagonal_array grid_size side_length False empty_fraction passive_flag rs = Inr (g, rs')"
    and rs': "rs' = rs" and sh: "grid_shape ?n ?n g"
    and c: "\<forall>a < ?n. \<forall>b < ?n. g ! a ! b = (if in_octagon (grid_size div 2) side_length a b then Active else Empty)"
    by (auto simp: bernoulli_value_plain)
  have "\<forall>i < ?n. length (g ! i) = ?n
          \<and> (\<forall>j < ?n. g ! i ! j =
                 (if real_of_int (\<bar>int i - grid_size div 2\<bar> + \<bar>int j - grid_size div 2\<bar>)
                       \<le> fmul side_length (fadd 1 (fdiv (fsqrt 2) 2))
                     \<and> real_of_int (max \<bar>int i - grid_size div 2\<bar> \<bar>int j - grid_size div 2\<bar>)
                       \<le> fmul side_length (fsqrt 2)
                  then Active else Empty))"
    using sh c unfolding grid_shape_def in_octagon_def Let_def by simp
  moreover have "length g = ?n" using sh by (simp add: grid_shape_def)
  ultimately show ?thesis using g rs' by blast
qed

theorem octagonal_region_witness:
  "\<exists>g. create_octagonal_array 3 1 False (1 / 10) False \<lparr>draws = (\<lambda>k. k), pos = 0\<rparr>
          = Inr (g, \<lparr>draws = (\<lambda>k. k), pos = 0\<rparr>)
       \<and> length g = 3 \<and> g ! 1 ! 1 = Active \<and> g ! 0 ! 1 = Active \<and> g ! 0 ! 0 = Empty"
  using octagonal_region [of 3 1 "1 / 10" False "\<lparr>draws = (\<lambda>k. k), pos = 0\<rparr>"]
  by (auto simp: numeral_3_eq_3 octagon_bounds_side_1)

section \<open>Full demotion\<close>

lemma full_sample:
  assumes "distinct idxs" "set idxs \<subseteq> {..<N}" "length idxs = N"
  shows "set idxs = {..<N}"
proof (rule card_subset_eq)
  show "finite {..<N}" by simp
  show "set idxs \<subseteq> {..<N}" by fact
  show "card (set idxs) = card {..<N}" using assms(1,3) by (simp add: distinct_card)
qed

lemma cell_index_bound:
  assumes "a < R" "b < C"
  shows "a * C + b < R * (C::nat)"
proof -
  have "a * C + b < a * C + C" using assms(2) by simp
  also have "\<dots> = Suc a * C" by simp
  also have "\<dots> \<le> R * C" using assms(1) by (intro mult_le_mono1) simp
  finally show ?thesis .
qed

lemma fmul_one:
  assumes "0 \<le> N" "N < 2 ^ 53"
  shows "\<lfloor>fmul (real_of_int N) 1\<rfloor> = N"
  using round_double_of_int [OF assms] by (simp add: fmul_def)

lemma hex_positions_length_le:
  assumes "0 \<le> radius"
  shows "int (length (hex_positions radius [0..<nat (2 * radius + 1)])) \<le> (2 * radius + 1)\<^sup>2"
proof -
  let ?n = "nat (2 * radius + 1)"
  have "{(a, b). a < ?n \<and> b < ?n \<and> in_hexagon radius a b} \<subseteq> {..<?n} \<times> {..<?n}" by auto
  then have "card {(a, b). a < ?n \<and> b < ?n \<and> in_hexagon radius a b} \<le> card ({..<?n} \<times> {..<?n})"
    by (intro card_mono) simp_all
  then have "length (hex_positions radius [0..<?n]) \<le> ?n * ?n"
    using hex_region_card [OF assms] by simp
  then have "int (length (hex_positions radius [0..<?n])) \<le> int (?n * ?n)"
    by (simp only: of_nat_le_iff)
  also have "int (?n * ?n) = (2 * radius + 1)\<^sup>2"
    using assms by (simp add: power2_eq_square)
  finally show ?thesis .
qed

lemma rectangular_full:
  assumes "1 \<le> rows" "1 \<le> columns" "rows * columns < 2 ^ 53"
  shows "\<exists>g rs'. create_rectangular_array rows columns True 1 pv rs = Inr (g, rs')
           \<and> grid_shape (nat rows) (nat columns) g
           \<and> (\<forall>a < nat rows. \<forall>b < nat columns. g ! a ! b = demoted pv)"
proof -
  let ?N = "nat (rows * columns)"
  from rectangular_randomized [OF assms(1,2) _ _ assms(3), of 1 pv rs]
  obtain g rs' idxs where g: "create_rectangular_array rows columns True 1 pv rs = Inr (g, rs')"
    and sh: "grid_shape (nat rows) (nat columns) g"
    and d: "distinct idxs" and s: "set idxs \<subseteq> {..<?N}"
    and l: "length idxs = nat \<lfloor>fmul (real_of_int (rows * columns)) 1\<rfloor>"
    and c: "\<forall>a < nat rows. \<forall>b < nat columns.
               g ! a ! b = (if (int a, int b) \<in> (\<lambda>p. (int p div columns, int p mod columns)) ` set idxs
                            then demoted pv else Active)"
    by auto
  have "\<lfloor>fmul (real_of_int (rows * columns)) 1\<rfloor> = rows * columns"
    using assms by (intro fmul_one) simp_all
  with l have "length idxs = ?N" by simp
  then have all: "set idxs = {..<?N}" using full_sample [OF d s] by simp
  have "g ! a ! b = demoted pv" if ab: "a < nat rows" "b < nat columns" for a b
  proof -
    let ?p = "a * nat columns + b"
    have "?p < nat rows * nat columns" using cell_index_bound [OF ab] .
    also have "\<dots> = ?N" using assms(1,2) by (simp add: nat_mult_distrib)
    finally have "?p \<in> set idxs" using all by simp
    moreover have "int ?p = int a * columns + int b" using assms(2) by simp
    then have "int ?p div columns = int a" "int ?p mod columns = int b"
      using ab(2) assms(2) by simp_all
    ultimately have "(int a, int b) \<in> (\<lambda>p. (int p div columns, int p mod columns)) ` set idxs"
      by (metis (mono_tags, lifting) image_eqI)
    then show ?thesis using c ab by simp
  qed
  then show ?thesis using g sh by blast
qed

lemma hexagonal_full:
  assumes "0 \<le> radius" "(2 * radius + 1)\<^sup>2 < 2 ^ 53"
  shows "\<exists>g rs'. create_hexagonal_array radius True 1 pv rs = Inr (g, rs')
           \<and> grid_shape (nat (2 * radius + 1)) (nat (2 * radius + 1)) g
           \<and> (\<forall>a < nat (2 * radius + 1). \<forall>b < nat (2 * radius + 1).
                 g ! a ! b = (if in_hexagon radius a b then demoted pv else Empty))"
proof -
  let ?n = "nat (2 * radius + 1)"
  let ?cps = "hex_positions radius [0..<?n]"
  have lim: "int (length ?cps) < 2 ^ 53"
    using hex_positions_length_le [OF assms(1)] assms(2) by linarith
  from hexagonal_randomized [OF assms(1) _ _ refl refl lim, of 1 pv rs]
  obtain g rs' idxs where g: "create_hexagonal_array radius True 1 pv rs = Inr (g, rs')"
    and sh: "grid_shape ?n ?n g"
    and d: "distinct idxs" and s: "set idxs \<subseteq> {..<length ?cps}"
    and l: "length idxs = nat \<lfloor>fmul (real (length ?cps)) 1\<rfloor>"
    and c: "\<forall>a < ?n. \<forall>b < ?n.
               g ! a ! b = (if (int a, int b) \<in> nth ?cps ` set idxs then demoted pv
                            else if in_hexagon radius a b then Active else Empty)"
    by auto
  have "\<lfloor>fmul (real_of_int (int (length ?cps))) 1\<rfloor> = int (length ?cps)"
    using lim by (intro fmul_one) simp_all
  then have "length idxs = length ?cps" using l by simp
  then have all: "set idxs = {..<length ?cps}" using full_sample [OF d s] by simp
  have img: "nth ?cps ` set idxs = set ?cps"
    unfolding all by (auto simp: set_conv_nth)
  have "g ! a ! b = (if in_hexagon radius a b then demoted pv else Empty)"
    if ab: "a < ?n" "b < ?n" for a b
    using c ab unfolding img by (simp add: hex_positions_mem)
  then show ?thesis using g sh by blast
qed

text \<open>
  Claim C8. With \<open>passive\<close> and \<open>randomize\<close> set and \<open>empty_fraction = 1\<close>, every cell in
  the region of the rectangular, hexagonal, circular and octagonal generators is \<open>Passive\<close>:
  none is \<open>Empty\<close> and none stays \<open>Active\<close>. The cells outside the region are \<open>Empty\<close>.
  The rectangular and hexagonal grids have fewer than \<open>2^53\<close> cells, so that the cell count
  is a double and its product with \<open>1.0\<close> is the count itself.
\<close>

theorem full_fraction_all_passive:
  assumes "1 \<le> rows" and "1 \<le> columns" and "1 \<le> hex_radius" and "1 \<le> grid_size"
    and "rows * columns < 2 ^ 53" and "(2 * hex_radius + 1)\<^sup>2 < 2 ^ 53"
  shows "(\<exists>g rs'. create_rectangular_array rows columns True 1 True rs = Inr (g, rs')
            \<and> length g = nat rows
            \<and> (\<forall>i < nat rows. length (g ! i) = nat columns
                  \<and> (\<forall>j < nat columns. g ! i ! j = Passive)))
       \<and> (\<exists>g rs'. create_hexagonal_array hex_radius True 1 True rs = Inr (g, rs')
            \<and> length g = nat (2 * hex_radius + 1)
            \<and> (\<forall>i < nat (2 * hex_radius + 1). length (g ! i) = nat (2 * hex_radius + 1)
                  \<and> (\<forall>j < nat (2 * hex_radius + 1).
                        g ! i ! j = (if in_hexagon hex_radius i j then Passive else Empty))))
       \<and> (\<exists>g rs'. create_circular_array grid_size radius True 1 True rs = Inr (g, rs')
            \<and> length g = nat grid_size
            \<and> (\<forall>i < nat grid_size. length (g ! i) = nat grid_size
                  \<and> (\<forall>j < nat grid_size.
                        g ! i ! j = (if in_circle (grid_size div 2) radius i j then Passive else Empty))))
       \<and> (\<exists>g rs'. create_octagonal_array grid_size side_length True 1 True rs = Inr (g, rs')
            \<and> length g = nat grid_size
            \<and> (\<forall>i < nat grid_size. length (g ! i) = nat grid_size
                  \<and> (\<forall>j < nat grid_size.
                        g ! i ! j = (if in_octagon (grid_size div 2) side_length i j
                                     then Passive else Empty))))"
proof (intro conjI)
  from rectangular_full [OF assms(1,2,5), of True rs]
  show "\<exists>g rs'. create_rectangular_array rows columns True 1 True rs = Inr (g, rs')
            \<and> length g = nat rows
            \<and> (\<forall>i < nat rows. length (g ! i) = nat columns
                  \<and> (\<forall>j < nat columns. g ! i ! j = Passive))"
    by (auto simp: grid_shape_def demoted_def)
next
  have "0 \<le> hex_radius" using assms(3) by simp
  from hexagonal_full [OF this assms(6), of True rs]
  show "\<exists>g rs'. create_hexagonal_array hex_radius True 1 True rs = Inr (g, rs')
            \<and> length g = nat (2 * hex_radius + 1)
            \<and> (\<forall>i < nat (2 * hex_radius + 1). length (g ! i) = nat (2 * hex_radius + 1)
                  \<and> (\<forall>j < nat (2 * hex_radius + 1).
                        g ! i ! j = (if in_hexagon hex_radius i j then Passive else Empty)))"
    by (auto simp: grid_shape_def demoted_def)
next
  have gs: "0 \<le> grid_size" using assms(4) by simp
  have v: "fst (bernoulli_value True 1 True rs) = Passive" for rs
    using bernoulli_value_full [of 1 True rs] by (simp add: demoted_def)
  from circular_result [OF gs v, of radius rs]
  show "\<exists>g rs'. create_circular_array grid_size radius True 1 True rs = Inr (g, rs')
            \<and> length g = nat grid_size
            \<and> (\<forall>i < nat grid_size. length (g ! i) = nat grid_size
                  \<and> (\<forall>j < nat grid_size.
                        g ! i ! j = (if in_circle (grid_size div 2) radius i j then Passive else Empty)))"
    by (auto simp: grid_shape_def)
  from octagonal_result [OF gs v, of side_length rs]
  show "\<exists>g rs'. create_octagonal_array grid_size side_length True 1 True rs = Inr (g, rs')
            \<and> length g = nat grid_size
            \<and> (\<forall>i < nat grid_size. length (g ! i) = nat grid_size
                  \<and> (\<forall>j < nat grid_size.
                        g ! i ! j = (if in_octagon (grid_size div 2) side_length i j
                                     then Passive else Empty)))"
    by (auto simp: grid_shape_def)
qed

theorem full_fraction_all_passive_witness:
  "(\<exists>g rs'. create_rectangular_array 2 3 True 1 True \<lparr>draws = (\<lambda>k. k), pos = 0\<rparr> = Inr (g, rs')
       \<and> length g = 2 \<and> g ! 0 ! 0 = Passive \<and> g ! 1 ! 2 = Passive)
   \<and> (\<exists>g rs'. create_hexagonal_array 1 True 1 True \<lparr>draws = (\<lambda>k. k), pos = 0\<rparr> = Inr (g, rs')
       \<and> length g = 3 \<and> g ! 1 ! 1 = Passive \<and> g ! 0 ! 0 = Empty)
   \<and> (\<exists>g rs'. create_circular_array 3 1 True 1 True \<lparr>draws = (\<lambda>k. k), pos = 0\<rparr> = Inr (g, rs')
       \<and> length g = 3 \<and> g ! 1 ! 1 = Passive \<and> g ! 0 ! 0 = Empty)
   \<and> (\<exists>g rs'. create_octagonal_array 3 1 True 1 True \<lparr>draws = (\<lambda>k. k), pos = 0\<rparr> = Inr (g, rs')
       \<and> length g = 3 \<and> g ! 1 ! 1 = Passive \<and> g ! 0 ! 0 = Empty)"
proof -
  note t = full_fraction_all_passive [of 2 3 1 3 "\<lparr>draws = (\<lambda>k. k), pos = 0\<rparr>" 1 1]
  have h: "in_hexagon 1 1 1" "\<not> in_hexagon 1 0 0"
    by (simp_all add: in_hexagon_def)
  have c: "in_circle (3 div 2) 1 1 1" "\<not> in_circle (3 div 2) 1 0 0"
    by (simp_all add: in_circle_def fsqrt_0 fsqrt_2)
  have oc: "in_octagon (3 div 2) 1 1 1" "\<not> in_octagon (3 div 2) 1 0 0"
    unfolding in_octagon_def Let_def octagon_bounds_side_1 by simp_all
  have n: "(0::nat) < 2" "(1::nat) < 2" "(0::nat) < 3" "(1::nat) < 3" "(2::nat) < 3" by simp_all
  from t have r: "\<exists>g rs'. create_rectangular_array 2 3 True 1 True \<lparr>draws = (\<lambda>k. k), pos = 0\<rparr> = Inr (g, rs')
       \<and> length g = 2 \<and> g ! 0 ! 0 = Passive \<and> g ! 1 ! 2 = Passive"
    using n by fastforce
  from t have x: "\<exists>g rs'. create_hexagonal_array 1 True 1 True \<lparr>draws = (\<lambda>k. k), pos = 0\<rparr> = Inr (g, rs')
       \<and> length g = 3 \<and> g ! 1 ! 1 = Passive \<and> g ! 0 ! 0 = Empty"
    using n h by fastforce
  from t have ci: "\<exists>g rs'. create_circular_array 3 1 True 1 True \<lparr>draws = (\<lambda>k. k), pos = 0\<rparr> = Inr (g, rs')
       \<and> length g = 3 \<and> g ! 1 ! 1 = Passive \<and> g ! 0 ! 0 = Empty"
    using n c by fastforce
  from t have o: "\<exists>g rs'. create_octagonal_array 3 1 True 1 True \<lparr>draws = (\<lambda>k. k), pos = 0\<rparr> = Inr (g, rs')
       \<and> length g = 3 \<and> g ! 1 ! 1 = Passive \<and> g ! 0 ! 0 = Empty"
    using n oc by fastforce
  from r x ci o show ?thesis by blast
qed

section \<open>Generation without randomisation\<close>

lemma scan_row_plain:
  "\<exists>r. \<forall>rs. scan_row inside False f pv i js (g, rs)
            = (case r of Inl e \<Rightarrow> Inl e | Inr g' \<Rightarrow> Inr (g', rs))"
proof (induction js arbitrary: g)
  case Nil
  have "\<forall>rs. scan_row inside False f pv i [] (g, rs)
          = (case Inr g of Inl e \<Rightarrow> Inl e | Inr g' \<Rightarrow> Inr (g', rs))" by simp
  then show ?case by blast
next
  case (Cons j js)
  show ?case
  proof (cases "inside i j")
    case False
    then show ?thesis using Cons.IH [of g] by simp
  next
    case True
    show ?thesis
    proof (cases "grid_set g (int i) (int j) Active")
      case (Inl e)
      then have "\<forall>rs. scan_row inside False f pv i (j # js) (g, rs)
          = (case Inl e of Inl e \<Rightarrow> Inl e | Inr g' \<Rightarrow> Inr (g', rs))"
        using True by (simp add: bernoulli_value_plain)
      then show ?thesis by blast
    next
      case (Inr g1)
      then show ?thesis using True Cons.IH [of g1] by (simp add: bernoulli_value_plain)
    qed
  qed
qed

lemma scan_rows_plain:
  "\<exists>r. \<forall>rs. scan_rows inside False f pv n rows (g, rs)
            = (case r of Inl e \<Rightarrow> Inl e | Inr g' \<Rightarrow> Inr (g', rs))"
proof (induction rows arbitrary: g)
  case Nil
  have "\<forall>rs. scan_rows inside False f pv n [] (g, rs)
          = (case Inr g of Inl e \<Rightarrow> Inl e | Inr g' \<Rightarrow> Inr (g', rs))" by simp
  then show ?case by blast
next
  case (Cons i rows)
  from scan_row_plain [of inside f pv i "[0..<nat n]" g]
  obtain r where r: "\<And>rs. scan_row inside False f pv i [0..<nat n] (g, rs)
            = (case r of Inl e \<Rightarrow> Inl e | Inr g' \<Rightarrow> Inr (g', rs))" by blast
  show ?case
  proof (cases r)
    case (Inl e)
    then have "\<forall>rs. scan_rows inside False f pv n (i # rows) (g, rs)
          = (case Inl e of Inl e \<Rightarrow> Inl e | Inr g' \<Rightarrow> Inr (g', rs))"
      using r by simp
    then show ?thesis by blast
  next
    case (Inr g1)
    then show ?thesis using r Cons.IH [of g1] by simp
  qed
qed

lemma rectangular_plain:
  "\<exists>r. \<forall>rs. create_rectangular_array rows columns False f pv rs
            = (case r of Inl e \<Rightarrow> Inl e | Inr g \<Rightarrow> Inr (g, rs))"
proof (cases "np_full rows columns Active")
  case (Inl e)
  then have "\<forall>rs. create_rectangular_array rows columns False f pv rs
            = (case Inl e of Inl e \<Rightarrow> Inl e | Inr g \<Rightarrow> Inr (g, rs))"
    by (simp add: create_rectangular_array_def)
  then show ?thesis by blast
next
  case (Inr g0)
  then have "\<forall>rs. create_rectangular_array rows columns False f pv rs
            = (case Inr g0 of Inl e \<Rightarrow> Inl e | Inr g \<Rightarrow> Inr (g, rs))"
    by (simp add: create_rectangular_array_def)
  then show ?thesis by blast
qed

lemma hexagonal_plain_any:
  "\<exists>r. \<forall>rs. create_hexagonal_array radius False f pv rs
            = (case r of Inl e \<Rightarrow> Inl e | Inr g \<Rightarrow> Inr (g, rs))"
proof -
  let ?r = "case np_full (2 * radius + 1) (2 * radius + 1) Empty of
              Inl e \<Rightarrow> Inl e
            | Inr g0 \<Rightarrow>
               (case hex_fill radius (2 * radius + 1) [0..<nat (2 * radius + 1)] (g0, []) of
                  Inl e \<Rightarrow> Inl e | Inr (g, cps) \<Rightarrow> Inr g)"
  have "\<forall>rs. create_hexagonal_array radius False f pv rs
            = (case ?r of Inl e \<Rightarrow> Inl e | Inr g \<Rightarrow> Inr (g, rs))"
    by (simp add: create_hexagonal_array_def Let_def split: sum.splits prod.splits)
  then show ?thesis by blast
qed

lemma sunflower_value_plain: "sunflower_value False f pv rs = (Active, rs)"
  by (simp add: sunflower_value_def)

lemma sunflower_loop_plain:
  "\<exists>r. \<forall>rs. sunflower_loop n_points radius grid_size False f pv points (g, rs)
            = (case r of Inl e \<Rightarrow> Inl e | Inr g' \<Rightarrow> Inr (g', rs))"
proof (cases points)
  case Nil
  then have "\<forall>rs. sunflower_loop n_points radius grid_size False f pv points (g, rs)
            = (case Inr None of Inl e \<Rightarrow> Inl e | Inr g' \<Rightarrow> Inr (g', rs))"
    by simp
  then show ?thesis by blast
next
  case (Cons i rest)
  define row where "row = py_round (real_of_int (grid_size div 2)
                  + radius * sqrt (real i / real_of_int n_points) * sin (real i * golden_angle))"
  define col where "col = py_round (real_of_int (grid_size div 2)
                  + radius * sqrt (real i / real_of_int n_points) * cos (real i * golden_angle))"
  define inb where "inb \<longleftrightarrow> 0 \<le> row \<and> row < grid_size \<and> 0 \<le> col \<and> col < grid_size"
  have loop: "sunflower_loop n_points radius grid_size False f pv points (g, rs)
      = (if inb
         then (case grid_set g row col Active of Inl e \<Rightarrow> Inl e | Inr g' \<Rightarrow> Inr (Some g', rs))
         else Inr (Some g, rs))" for rs
    unfolding Cons inb_def row_def col_def by (simp add: Let_def sunflower_value_plain)
  show ?thesis
  proof (cases inb)
    case False
    then have "\<forall>rs. sunflower_loop n_points radius grid_size False f pv points (g, rs)
            = (case Inr (Some g) of Inl e \<Rightarrow> Inl e | Inr g' \<Rightarrow> Inr (g', rs))"
      using loop by simp
    then show ?thesis by blast
  next
    case True
    show ?thesis
    proof (cases "grid_set g row col Active")
      case (Inl e)
      then have "\<forall>rs. sunflower_loop n_points radius grid_size False f pv points (g, rs)
            = (case Inl e of Inl e \<Rightarrow> Inl e | Inr g' \<Rightarrow> Inr (g', rs))"
        using loop True by simp
      then show ?thesis by blast
    next
      case (Inr g1)
      then have "\<forall>rs. sunflower_loop n_points radius grid_size False f pv points (g, rs)
            = (case Inr (Some g1) of Inl e \<Rightarrow> Inl e | Inr g' \<Rightarrow> Inr (g', rs))"
        using loop True by simp
      then show ?thesis by blast
    qed
  qed
qed

lemma sunflower_plain:
  "\<exists>r. \<forall>rs. create_sunflower_array n_points radius grid_size False f pv rs
            = (case r of Inl e \<Rightarrow> Inl e | Inr g \<Rightarrow> Inr (g, rs))"
proof (cases "np_full grid_size grid_size Empty")
  case (Inl e)
  then have "\<forall>rs. create_sunflower_array n_points radius grid_size False f pv rs
            = (case Inl e of Inl e \<Rightarrow> Inl e | Inr g \<Rightarrow> Inr (g, rs))"
    by (simp add: create_sunflower_array_def)
  then show ?thesis by blast
next
  case (Inr g0)
  then show ?thesis
    using sunflower_loop_plain [of n_points radius grid_size f pv "[0..<nat n_points]" g0]
    by (simp add: create_sunflower_array_def)
qed

lemma circular_plain:
  "\<exists>r. \<forall>rs. create_circular_array grid_size radius False f pv rs
            = (case r of Inl e \<Rightarrow> Inl e | Inr g \<Rightarrow> Inr (g, rs))"
proof (cases "np_full grid_size grid_size Empty")
  case (Inl e)
  then have "\<forall>rs. create_circular_array grid_size radius False f pv rs
            = (case Inl e of Inl e \<Rightarrow> Inl e | Inr g \<Rightarrow> Inr (g, rs))"
    by (simp add: create_circular_array_def)
  then show ?thesis by blast
next
  case (Inr g0)
  then show ?thesis
    using scan_rows_plain [of "in_circle (grid_size div 2) radius" f pv grid_size "[0..<nat grid_size]" g0]
    by (simp add: create_circular_array_def)
qed

lemma octagonal_plain:
  "\<exists>r. \<forall>rs. create_octagonal_array grid_size side_length False f pv rs
            = (case r of Inl e \<Rightarrow> Inl e | Inr g \<Rightarrow> Inr (g, rs))"
proof (cases "np_full grid_size grid_size Empty")
  case (Inl e)
  then have "\<forall>rs. create_octagonal_array grid_size side_length False f pv rs
            = (case Inl e of Inl e \<Rightarrow> Inl e | Inr g \<Rightarrow> Inr (g, rs))"
    by (simp add: create_octagonal_array_def)
  then show ?thesis by blast
next
  case (Inr g0)
  then show ?thesis
    using scan_rows_plain [of "in_octagon (grid_size div 2) side_length" f pv grid_size "[0..<nat grid_size]" g0]
    by (simp add: create_octagonal_array_def)
qed

lemma plain_outcome:
  assumes "\<forall>rs. run rs = (case r of Inl e \<Rightarrow> Inl e | Inr g \<Rightarrow> Inr (g, rs))"
  shows "outcome (run rs1) = outcome (run rs2)"
  using assms by (cases r) (simp_all add: outcome_def)

lemma plain_unchanged:
  assumes "\<forall>rs. run rs = (case r of Inl e \<Rightarrow> Inl e | Inr g \<Rightarrow> Inr (g, rs))"
  shows "\<forall>g rs'. run rs1 = Inr (g, rs') \<longrightarrow> rs' = rs1"
  using assms by (cases r) simp_all

text \<open>
  Claim C9. With \<open>randomize\<close> unset every generator is a function of its parameters alone:
  for any two states of the random source the caller gets the same result (the same grid,
  or the same error), and the state of the random source is returned as it was.
\<close>

theorem plain_generation_ignores_random_source:
  "outcome (create_rectangular_array rows columns False f pv rs1)
     = outcome (create_rectangular_array rows columns False f pv rs2)
   \<and> outcome (create_hexagonal_array hex_radius False f pv rs1)
     = outcome (create_hexagonal_array hex_radius False f pv rs2)
   \<and> outcome (create_sunflower_array n_points radius grid_size False f pv rs1)
     = outcome (create_sunflower_array n_points radius grid_size False f pv rs2)
   \<and> outcome (create_circular_array grid_size radius False f pv rs1)
     = outcome (create_circular_array grid_size radius False f pv rs2)
   \<and> outcome (create_octagonal_array grid_size side_length False f pv rs1)
     = outcome (create_octagonal_array grid_size side_length False f pv rs2)
   \<and> (\<forall>g rs'. create_rectangular_array rows columns False f pv rs1 = Inr (g, rs') \<longrightarrow> rs' = rs1)
   \<and> (\<forall>g rs'. create_hexagonal_array hex_radius False f pv rs1 = Inr (g, rs') \<longrightarrow> rs' = rs1)
   \<and> (\<forall>g rs'. create_sunflower_array n_points radius grid_size False f pv rs1 = Inr (g, rs')
                 \<longrightarrow> rs' = rs1)
   \<and> (\<forall>g rs'. create_circular_array grid_size radius False f pv rs1 = Inr (g, rs') \<longrightarrow> rs' = rs1)
   \<and> (\<forall>g rs'. create_octagonal_array grid_size side_length False f pv rs1 = Inr (g, rs')
                 \<longrightarrow> rs' = rs1)"
proof -
  obtain r1 where r1: "\<forall>rs. create_rectangular_array rows columns False f pv rs
            = (case r1 of Inl e \<Rightarrow> Inl e | Inr g \<Rightarrow> Inr (g, rs))"
    using rectangular_plain by blast
  obtain r2 where r2: "\<forall>rs. create_hexagonal_array hex_radius False f pv rs
            = (case r2 of Inl e \<Rightarrow> Inl e | Inr g \<Rightarrow> Inr (g, rs))"
    using hexagonal_plain_any by blast
  obtain r3 where r3: "\<forall>rs. create_sunflower_array n_points radius grid_size False f pv rs
            = (case r3 of Inl e \<Rightarrow> Inl e | Inr g \<Rightarrow> Inr (g, rs))"
    using sunflower_plain by blast
  obtain r4 where r4: "\<forall>rs. create_circular_array grid_size radius False f pv rs
            = (case r4 of Inl e \<Rightarrow> Inl e | Inr g \<Rightarrow> Inr (g, rs))"
    using circular_plain by blast
  obtain r5 where r5: "\<forall>rs. create_octagonal_array grid_size side_length False f pv rs
            = (case r5 of Inl e \<Rightarrow> Inl e | Inr g \<Rightarrow> Inr (g, rs))"
    using octagonal_plain by blast
  show ?thesis
    using plain_outcome [OF r1, of rs1 rs2] plain_outcome [OF r2, of rs1 rs2]
      plain_outcome [OF r3, of rs1 rs2] plain_outcome [OF r4, of rs1 rs2]
      plain_outcome [OF r5, of rs1 rs2]
      plain_unchanged [OF r1, of rs1] plain_unchanged [OF r2, of rs1]
      plain_unchanged [OF r3, of rs1] plain_unchanged [OF r4, of rs1]
      plain_unchanged [OF r5, of rs1]
    by (intro conjI) assumption+
qed

theorem plain_generation_ignores_random_source_witness:
  "outcome (create_rectangular_array 2 3 False (1 / 2) True \<lparr>draws = (\<lambda>k. k), pos = 0\<rparr>)
     = outcome (create_rectangular_array 2 3 False (1 / 2) True \<lparr>draws = (\<lambda>k. 7 * k + 1), pos = 5\<rparr>)
   \<and> outcome (create_circular_array 4 2 False (1 / 2) True \<lparr>draws = (\<lambda>k. k), pos = 0\<rparr>)
     = outcome (create_circular_array 4 2 False (1 / 2) True \<lparr>draws = (\<lambda>k. 7 * k + 1), pos = 5\<rparr>)
   \<and> create_rectangular_array 2 3 False (1 / 2) True \<lparr>draws = (\<lambda>k. k), pos = 0\<rparr>
     = Inr ([[Active, Active, Active], [Active, Active, Active]], \<lparr>draws = (\<lambda>k. k), pos = 0\<rparr>)"
proof -
  note t = plain_generation_ignores_random_source
    [of 2 3 "1 / 2" True "\<lparr>draws = (\<lambda>k. k), pos = 0\<rparr>" "\<lparr>draws = (\<lambda>k. 7 * k + 1), pos = 5\<rparr>"
        1 5 2 4 1]
  have e: "create_rectangular_array 2 3 False (1 / 2) True \<lparr>draws = (\<lambda>k. k), pos = 0\<rparr>
     = Inr ([[Active, Active, Active], [Active, Active, Active]], \<lparr>draws = (\<lambda>k. k), pos = 0\<rparr>)"
    by (simp add: create_rectangular_array_def np_full_def eval_nat_numeral)
  from t e show ?thesis by simp
qed

section \<open>Fixed-count sampling in the rectangular and hexagonal generators\<close>

lemma demoted_not_Active: "demoted pv \<noteq> Active"
  by (simp add: demoted_def)

lemma rectangular_demoted_count:
  assumes "1 \<le> rows" "1 \<le> columns" "0 \<le> f" "f \<le> 1" "rows * columns < 2 ^ 53"
  shows "\<exists>g rs'. create_rectangular_array rows columns True f pv rs = Inr (g, rs')
           \<and> grid_shape (nat rows) (nat columns) g
           \<and> card {(i, j). i < nat rows \<and> j < nat columns \<and> g ! i ! j \<noteq> Active}
               = nat \<lfloor>fmul (real_of_int (rows * columns)) f\<rfloor>
           \<and> (\<forall>i < nat rows. \<forall>j < nat columns. g ! i ! j = Active \<or> g ! i ! j = demoted pv)"
proof -
  let ?N = "nat (rows * columns)"
  let ?dm = "\<lambda>p. (int p div columns, int p mod columns)"
  from rectangular_randomized [OF assms, of pv rs]
  obtain g rs' idxs where g: "create_rectangular_array rows columns True f pv rs = Inr (g, rs')"
    and sh: "grid_shape (nat rows) (nat columns) g"
    and d: "distinct idxs" and s: "set idxs \<subseteq> {..<?N}"
    and l: "length idxs = nat \<lfloor>fmul (real_of_int (rows * columns)) f\<rfloor>"
    and c: "\<forall>a < nat rows. \<forall>b < nat columns.
               g ! a ! b = (if (int a, int b) \<in> ?dm ` set idxs then demoted pv else Active)"
    by blast
  let ?P = "?dm ` set idxs"
  have range: "\<forall>(x, y) \<in> ?P. 0 \<le> x \<and> x < int (nat rows) \<and> 0 \<le> y \<and> y < int (nat columns)"
  proof -
    have "0 \<le> int p div columns \<and> int p div columns < int (nat rows)
          \<and> 0 \<le> int p mod columns \<and> int p mod columns < int (nat columns)" if "p \<in> set idxs" for p
    proof -
      from that s have "p < ?N" by auto
      from divmod_in_range [OF _ _ this] assms(1,2) show ?thesis by simp
    qed
    then show ?thesis by auto
  qed
  have "{(i, j). i < nat rows \<and> j < nat columns \<and> g ! i ! j \<noteq> Active}
        = {(a, b). a < nat rows \<and> b < nat columns \<and> (int a, int b) \<in> ?P}"
    using c by (auto simp: demoted_not_Active split: if_splits)
  then have "card {(i, j). i < nat rows \<and> j < nat columns \<and> g ! i ! j \<noteq> Active} = card ?P"
    using card_int_pairs [OF _ range] by simp
  also have "\<dots> = card (set idxs)" by (rule card_image) (rule divmod_inj)
  also have "\<dots> = length idxs" using d by (rule distinct_card)
  finally have cnt: "card {(i, j). i < nat rows \<and> j < nat columns \<and> g ! i ! j \<noteq> Active}
                     = nat \<lfloor>fmul (real_of_int (rows * columns)) f\<rfloor>"
    using l by simp
  have "\<forall>i < nat rows. \<forall>j < nat columns. g ! i ! j = Active \<or> g ! i ! j = demoted pv"
    using c by simp
  then show ?thesis using g sh cnt by blast
qed

lemma hexagonal_demoted_count:
  assumes r: "0 \<le> radius" and f: "0 \<le> f" "f \<le> 1" and n: "n = nat (2 * radius + 1)"
    and small: "(2 * radius + 1)\<^sup>2 < 2 ^ 53"
  shows "\<exists>g rs'. create_hexagonal_array radius True f pv rs = Inr (g, rs')
           \<and> grid_shape n n g
           \<and> card {(i, j). i < n \<and> j < n \<and> in_hexagon radius i j \<and> g ! i ! j \<noteq> Active}
               = nat \<lfloor>fmul (real (card {(i, j). i < n \<and> j < n \<and> in_hexagon radius i j})) f\<rfloor>
           \<and> (\<forall>i < n. \<forall>j < n.
                 if in_hexagon radius i j then g ! i ! j = Active \<or> g ! i ! j = demoted pv
                 else g ! i ! j = Empty)"
proof -
  let ?cps = "hex_positions radius [0..<n]"
  have lim: "int (length ?cps) < 2 ^ 53"
    using hex_positions_length_le [OF r] small unfolding n by linarith
  from hexagonal_randomized [OF r f n refl lim, of pv rs]
  obtain g rs' idxs where g: "create_hexagonal_array radius True f pv rs = Inr (g, rs')"
    and sh: "grid_shape n n g"
    and d: "distinct idxs" and s: "set idxs \<subseteq> {..<length ?cps}"
    and l: "length idxs = nat \<lfloor>fmul (real (length ?cps)) f\<rfloor>"
    and c: "\<forall>a < n. \<forall>b < n.
               g ! a ! b = (if (int a, int b) \<in> nth ?cps ` set idxs then demoted pv
                            else if in_hexagon radius a b then Active else Empty)"
    by blast
  let ?P = "nth ?cps ` set idxs"
  have sub: "?P \<subseteq> set ?cps" using s by auto
  have range: "\<forall>(x, y) \<in> ?P. 0 \<le> x \<and> x < int n \<and> 0 \<le> y \<and> y < int n"
    using hex_positions_range [OF r n, of "[0..<n]"] sub by fastforce
  have inhex: "in_hexagon radius a b" if "(int a, int b) \<in> ?P" for a b
    using that sub hex_positions_mem [of a b radius "[0..<n]"] by auto
  have "{(i, j). i < n \<and> j < n \<and> in_hexagon radius i j \<and> g ! i ! j \<noteq> Active}
        = {(a, b). a < n \<and> b < n \<and> (int a, int b) \<in> ?P}"
    using c inhex by (auto simp: demoted_not_Active split: if_splits)
  then have "card {(i, j). i < n \<and> j < n \<and> in_hexagon radius i j \<and> g ! i ! j \<noteq> Active} = card ?P"
    using card_int_pairs [OF _ range] by simp
  also have "\<dots> = card (set idxs)"
  proof (rule card_image)
    show "inj_on (nth ?cps) (set idxs)"
      using s by (intro inj_on_nth hex_positions_distinct) auto
  qed
  also have "\<dots> = length idxs" using d by (rule distinct_card)
  finally have "card {(i, j). i < n \<and> j < n \<and> in_hexagon radius i j \<and> g ! i ! j \<noteq> Active}
                     = nat \<lfloor>fmul (real (length ?cps)) f\<rfloor>"
    using l by simp
  then have cnt: "card {(i, j). i < n \<and> j < n \<and> in_hexagon radius i j \<and> g ! i ! j \<noteq> Active}
               = nat \<lfloor>fmul (real (card {(i, j). i < n \<and> j < n \<and> in_hexagon radius i j})) f\<rfloor>"
    using hex_region_card [OF r] n by simp
  have "\<forall>i < n. \<forall>j < n.
          if in_hexagon radius i j then g ! i ! j = Active \<or> g ! i ! j = demoted pv
          else g ! i ! j = Empty"
    using c inhex by auto
  then show ?thesis using g sh cnt by blast
qed

lemma fmul_5_06: "fmul 5 (5404319552844595 / 2 ^ 53) = 3"
proof -
  have "round_double (5 * (5404319552844595 / 2 ^ 53)) = real_of_int 6755399441055744 * 2 powi (1 - 52)"
    by (rule round_double_value) simp_all
  then show ?thesis by (simp add: fmul_def)
qed

lemma fmul_4_half: "fmul 4 (1 / 2) = 2"
  using round_double_of_int [of 2] by (simp add: fmul_def)

lemma fmul_7_half: "fmul 7 (1 / 2) = 7 / 2"
  using round_double_exact [of 1 "7 * 2 ^ 50"] by (simp add: fmul_def)

lemma hex_region_seven:
  "card {(i, j). i < nat (2 * 1 + 1) \<and> j < nat (2 * 1 + 1) \<and> in_hexagon 1 i j} = 7"
proof -
  have "[0..<nat (2 * 1 + 1)] = [0, 1, 2]" by (simp add: eval_nat_numeral upt_rec)
  then have "hex_positions 1 [0..<nat (2 * 1 + 1)]
      = [(0, 1), (0, 2), (1, 0), (1, 1), (1, 2), (2, 0), (2, 1)]"
    by (simp add: hex_positions_def upto.simps)
  then have "length (hex_positions 1 [0..<nat (2 * 1 + 1)]) = 7" by simp
  then show ?thesis using hex_region_card [of 1] by simp
qed

text \<open>
  Claim C3 gives the number of demoted cells as \<open>floor (N * f)\<close>. The generators take
  \<^verbatim>\<open>int\<close> of the product as computed in double precision: for \<open>rows = 1\<close>, \<open>columns = 5\<close>
  and \<open>f = 5404319552844595 / 2^53\<close> (the double \<open>0.6\<close>) the product rounds to \<open>3.0\<close> and three
  cells are demoted, while \<open>floor (N * f) = 2\<close>.
\<close>

theorem exact_product_counterexample:
  "\<exists>g rs'. create_rectangular_array 1 5 True (5404319552844595 / 2 ^ 53) False
               \<lparr>draws = (\<lambda>k. k), pos = 0\<rparr> = Inr (g, rs')
       \<and> card {(i, j). i < 1 \<and> j < 5 \<and> g ! i ! j \<noteq> Active} = 3
       \<and> \<lfloor>real_of_int (1 * 5) * (5404319552844595 / 2 ^ 53 :: real)\<rfloor> = 2"
proof -
  from rectangular_demoted_count
    [of 1 5 "5404319552844595 / 2 ^ 53" False "\<lparr>draws = (\<lambda>k. k), pos = 0\<rparr>"]
  obtain g rs' where
    "create_rectangular_array 1 5 True (5404319552844595 / 2 ^ 53) False
       \<lparr>draws = (\<lambda>k. k), pos = 0\<rparr> = Inr (g, rs')"
    "card {(i, j). i < nat 1 \<and> j < nat 5 \<and> g ! i ! j \<noteq> Active}
       = nat \<lfloor>fmul (real_of_int (1 * 5)) (5404319552844595 / 2 ^ 53)\<rfloor>"
    by auto
  moreover have "nat \<lfloor>fmul (real_of_int (1 * 5)) (5404319552844595 / 2 ^ 53)\<rfloor> = 3"
    using fmul_5_06 by simp
  moreover have "\<lfloor>real_of_int (1 * 5) * (5404319552844595 / 2 ^ 53 :: real)\<rfloor> = 2"
    by simp
  ultimately show ?thesis by auto
qed

text \<open>
  Claim C3, amended. For the rectangular and hexagonal generators with \<open>randomize\<close> set,
  \<open>empty_fraction = f\<close> in \<open>[0, 1]\<close> and a grid of fewer than \<open>2^53\<close> cells, exactly
  \<open>floor (N * f)\<close> distinct cells of the region are not \<open>Active\<close> in the result, where the
  product \<open>N * f\<close> is the one rounded to double precision that the generator computes and
  \<open>N\<close> is \<open>rows * columns\<close> for the rectangle and the number of positions in the hexagon
  for the hexagon. Each of them holds the demoted value (\<open>Passive\<close> if \<open>passive\<close>, else
  \<open>Empty\<close>), every other cell of the region is \<open>Active\<close>, and the cells of the hexagonal grid
  outside the hexagon are \<open>Empty\<close>.
\<close>

theorem fixed_count_demotion:
  assumes "0 \<le> f" and "f \<le> 1" and "1 \<le> rows" and "1 \<le> columns" and "1 \<le> radius"
    and "rows * columns < 2 ^ 53" and "(2 * radius + 1)\<^sup>2 < 2 ^ 53"
  shows "(\<exists>g rs'. create_rectangular_array rows columns True f pv rs = Inr (g, rs')
            \<and> length g = nat rows
            \<and> (\<forall>i < nat rows. length (g ! i) = nat columns)
            \<and> card {(i, j). i < nat rows \<and> j < nat columns \<and> g ! i ! j \<noteq> Active}
                = nat \<lfloor>fmul (real_of_int (rows * columns)) f\<rfloor>
            \<and> (\<forall>i < nat rows. \<forall>j < nat columns.
                  g ! i ! j = Active \<or> g ! i ! j = (if pv then Passive else Empty)))
       \<and> (\<exists>g rs'. create_hexagonal_array radius True f pv rs = Inr (g, rs')
            \<and> length g = nat (2 * radius + 1)
            \<and> (\<forall>i < nat (2 * radius + 1). length (g ! i) = nat (2 * radius + 1))
            \<and> card {(i, j). i < nat (2 * radius + 1) \<and> j < nat (2 * radius + 1)
                             \<and> in_hexagon radius i j \<and> g ! i ! j \<noteq> Active}
                = nat \<lfloor>fmul (real (card {(i, j). i < nat (2 * radius + 1) \<and> j < nat (2 * radius + 1)
                                            \<and> in_hexagon radius i j})) f\<rfloor>
            \<and> (\<forall>i < nat (2 * radius + 1). \<forall>j < nat (2 * radius + 1).
                  if in_hexagon radius i j
                  then g ! i ! j = Active \<or> g ! i ! j = (if pv then Passive else Empty)
                  else g ! i ! j = Empty))"
proof (rule conjI)
  from rectangular_demoted_count [OF assms(3,4,1,2,6), of pv rs]
  show "\<exists>g rs'. create_rectangular_array rows columns True f pv rs = Inr (g, rs')
            \<and> length g = nat rows
            \<and> (\<forall>i < nat rows. length (g ! i) = nat columns)
            \<and> card {(i, j). i < nat rows \<and> j < nat columns \<and> g ! i ! j \<noteq> Active}
                = nat \<lfloor>fmul (real_of_int (rows * columns)) f\<rfloor>
            \<and> (\<forall>i < nat rows. \<forall>j < nat columns.
                  g ! i ! j = Active \<or> g ! i ! j = (if pv then Passive else Empty))"
    unfolding grid_shape_def demoted_def by blast
next
  have r: "0 \<le> radius" using assms(5) by simp
  from hexagonal_demoted_count [OF r assms(1,2) refl assms(7), of pv rs]
  show "\<exists>g rs'. create_hexagonal_array radius True f pv rs = Inr (g, rs')
            \<and> length g = nat (2 * radius + 1)
            \<and> (\<forall>i < nat (2 * radius + 1). length (g ! i) = nat (2 * radius + 1))
            \<and> card {(i, j). i < nat (2 * radius + 1) \<and> j < nat (2 * radius + 1)
                             \<and> in_hexagon radius i j \<and> g ! i ! j \<noteq> Active}
                = nat \<lfloor>fmul (real (card {(i, j). i < nat (2 * radius + 1) \<and> j < nat (2 * radius + 1)
                                            \<and> in_hexagon radius i j})) f\<rfloor>
            \<and> (\<forall>i < nat (2 * radius + 1). \<forall>j < nat (2 * radius + 1).
                  if in_hexagon radius i j
                  then g ! i ! j = Active \<or> g ! i ! j = (if pv then Passive else Empty)
                  else g ! i ! j = Empty)"
    unfolding grid_shape_def demoted_def by blast
qed

theorem fixed_count_demotion_witness:
  "(\<exists>g rs'. create_rectangular_array 2 2 True (1 / 2) True \<lparr>draws = (\<lambda>k. k), pos = 0\<rparr> = Inr (g, rs')
       \<and> length g = 2
       \<and> card {(i, j). i < 2 \<and> j < 2 \<and> g ! i ! j \<noteq> Active} = 2)
   \<and> (\<exists>g rs'. create_hexagonal_array 1 True (1 / 2) True \<lparr>draws = (\<lambda>k. k), pos = 0\<rparr> = Inr (g, rs')
       \<and> length g = 3
       \<and> card {(i, j). i < 3 \<and> j < 3 \<and> in_hexagon 1 i j \<and> g ! i ! j \<noteq> Active} = 3)"
proof -
  have h: "(0::real) \<le> 1 / 2" "(1 / 2 :: real) \<le> 1" "(1::int) \<le> 2" "(1::int) \<le> 1"
    "(2::int) * 2 < 2 ^ 53" "(2 * 1 + 1 :: int)\<^sup>2 < 2 ^ 53" by simp_all
  note t = fixed_count_demotion [OF h(1) h(2) h(3) h(3) h(4) h(5) h(6), of True "\<lparr>draws = (\<lambda>k. k), pos = 0\<rparr>"]
  have f1: "nat \<lfloor>fmul (real_of_int (2 * 2)) (1 / 2 :: real)\<rfloor> = 2"
    using fmul_4_half by simp
  have seven: "real 7 = 7" by simp
  have f2: "nat \<lfloor>fmul (real 7) (1 / 2 :: real)\<rfloor> = 3"
    unfolding seven fmul_7_half by simp
  have n2: "nat 2 = 2" "nat (2 * 1 + 1) = 3" by simp_all
  have h7: "card {(i, j). i < 3 \<and> j < 3 \<and> in_hexagon 1 i j} = 7"
    using hex_region_seven unfolding n2 .
  from t [THEN conjunct1] obtain g rs' where
    "create_rectangular_array 2 2 True (1 / 2) True \<lparr>draws = (\<lambda>k. k), pos = 0\<rparr> = Inr (g, rs')"
    "length g = nat 2"
    "card {(i, j). i < nat 2 \<and> j < nat 2 \<and> g ! i ! j \<noteq> Active}
       = nat \<lfloor>fmul (real_of_int (2 * 2)) (1 / 2 :: real)\<rfloor>"
    by blast
  then have a: "\<exists>g rs'. create_rectangular_array 2 2 True (1 / 2) True \<lparr>draws = (\<lambda>k. k), pos = 0\<rparr> = Inr (g, rs')
       \<and> length g = 2
       \<and> card {(i, j). i < 2 \<and> j < 2 \<and> g ! i ! j \<noteq> Active} = 2"
    unfolding f1 n2 by blast
  from t [THEN conjunct2] obtain g rs' where
    "create_hexagonal_array 1 True (1 / 2) True \<lparr>draws = (\<lambda>k. k), pos = 0\<rparr> = Inr (g, rs')"
    "length g = nat (2 * 1 + 1)"
    "card {(i, j). i < nat (2 * 1 + 1) \<and> j < nat (2 * 1 + 1) \<and> in_hexagon 1 i j \<and> g ! i ! j \<noteq> Active}
       = nat \<lfloor>fmul (real (card {(i, j). i < nat (2 * 1 + 1) \<and> j < nat (2 * 1 + 1) \<and> in_hexagon 1 i j}))
                 (1 / 2 :: real)\<rfloor>"
    by blast
  then have b: "\<exists>g rs'. create_hexagonal_array 1 True (1 / 2) True \<lparr>draws = (\<lambda>k. k), pos = 0\<rparr> = Inr (g, rs')
       \<and> length g = 3
       \<and> card {(i, j). i < 3 \<and> j < 3 \<and> in_hexagon 1 i j \<and> g ! i ! j \<noteq> Active} = 3"
    unfolding n2 h7 f2 by blast
  from a b show ?thesis by blast
qed

text \<open>The run of the rectangular generator on the input above, with the random source
  drawing \<open>0, 1, 2, \<dots>\<close>.\<close>

lemma choice_5_3:
  "outcome (random_choice 5 3 \<lparr>draws = (\<lambda>k. k), pos = 0\<rparr>) = Inr [4, 3, 2]"
  by code_simp

lemma demote_5:
  "rect_demote 5 False [4, 3, 2] [[Active, Active, Active, Active, Active]]
     = Inr [[Active, Active, Empty, Empty, Empty]]"
  by code_simp

lemma rect_sample_run:
  "outcome (create_rectangular_array 1 5 True (5404319552844595 / 2 ^ 53) False
             \<lparr>draws = (\<lambda>k. k), pos = 0\<rparr>)
     = Inr [[Active, Active, Empty, Empty, Empty]]"
proof -
  have full: "np_full 1 5 Active = Inr [[Active, Active, Active, Active, Active]]"
    by (simp add: np_full_def eval_nat_numeral)
  have k: "py_int (fmul (real_of_int (1 * 5)) (5404319552844595 / 2 ^ 53)) = 3"
    using fmul_5_06 by (simp add: py_int_def)
  obtain rs' where "random_choice 5 3 \<lparr>draws = (\<lambda>k. k), pos = 0\<rparr> = Inr ([4, 3, 2], rs')"
    using choice_5_3 by (auto simp: outcome_def split: sum.splits prod.splits)
  then have ch: "random_choice (1 * 5) 3 \<lparr>draws = (\<lambda>k. k), pos = 0\<rparr> = Inr ([4, 3, 2], rs')"
    by simp
  show ?thesis
    unfolding create_rectangular_array_def Let_def full k
    by (simp only: ch demote_5 outcome_def sum.case prod.case if_True)
qed

section \<open>Invalid parameters\<close>




end
